theory Spec2Isabelle
  imports Main
begin

section \<open>Python string primitives used by the chunker\<close>

text \<open>
  A Python \<open>str\<close> is modelled as a \<open>string\<close>, one \<open>char\<close> per code point (the model
  covers the code points below 256). \<open>isspace\<close> is the whitespace test shared by
  \<open>str.strip()\<close>, \<open>str.split()\<close> and the regular expression class \<open>\s\<close>: on these
  code points it holds for 0x09-0x0D, 0x1C-0x1F, 0x20, 0x85 and 0xA0.
\<close>

abbreviation NL :: char where
  "NL \<equiv> CHR 0x0A"

definition isspace :: "char \<Rightarrow> bool" where
  "isspace c = (c \<in> set [CHR 0x09, CHR 0x0A, CHR 0x0B, CHR 0x0C, CHR 0x0D,
                          CHR 0x1C, CHR 0x1D, CHR 0x1E, CHR 0x1F, CHR 0x20,
                          CHR 0x85, CHR 0xA0])"

definition strip :: "string \<Rightarrow> string" where
  \<comment> \<open>\<open>s.strip()\<close>\<close>
  "strip s = rev (dropWhile isspace (rev (dropWhile isspace s)))"

fun split_char :: "char \<Rightarrow> string \<Rightarrow> string list" where
  \<comment> \<open>\<open>s.split(sep)\<close> for a one-character separator; never returns the empty list\<close>
  "split_char sep [] = [[]]"
| "split_char sep (c # cs) =
     (let r = split_char sep cs
      in if c = sep then [] # r else (c # hd r) # tl r)"

fun split_paragraphs :: "string \<Rightarrow> string list" where
  \<comment> \<open>\<open>s.split('\n\n')\<close>: separators are found left to right and do not overlap\<close>
  "split_paragraphs [] = [[]]"
| "split_paragraphs [a] = [[a]]"
| "split_paragraphs (a # b # cs) =
     (if a = NL \<and> b = NL then [] # split_paragraphs cs
      else (let r = split_paragraphs (b # cs) in (a # hd r) # tl r))"

fun split_ws_acc :: "string \<Rightarrow> string \<Rightarrow> string list" where
  "split_ws_acc cur [] = (if cur = [] then [] else [cur])"
| "split_ws_acc cur (c # cs) =
     (if isspace c then (if cur = [] then split_ws_acc [] cs else cur # split_ws_acc [] cs)
      else split_ws_acc (cur @ [c]) cs)"

definition split_ws :: "string \<Rightarrow> string list" where
  \<comment> \<open>\<open>s.split()\<close>: the maximal runs of non-whitespace characters\<close>
  "split_ws s = split_ws_acc [] s"

fun join :: "string \<Rightarrow> string list \<Rightarrow> string" where
  \<comment> \<open>\<open>sep.join(xs)\<close>\<close>
  "join sep [] = []"
| "join sep [x] = x"
| "join sep (x # y # ys) = x @ sep @ join sep (y # ys)"

fun find_char :: "char \<Rightarrow> string \<Rightarrow> int" where
  \<comment> \<open>\<open>s.find(ch)\<close>: the index of the first occurrence, or -1\<close>
  "find_char ch [] = -1"
| "find_char ch (c # cs) =
     (if c = ch then 0
      else (let r = find_char ch cs in if r < 0 then -1 else r + 1))"

definition slice_from :: "int \<Rightarrow> string \<Rightarrow> string" where
  \<comment> \<open>\<open>s[k:]\<close>: a negative \<open>k\<close> counts from the end and is clamped at the start\<close>
  "slice_from k s =
     (if k < 0 then drop (nat (int (length s) + k)) s else drop (nat k) s)"

section \<open>Data model\<close>

record ('k, 'v) DocumentChunk =
  content :: string
  chunk_index :: int
  metadata :: "'k \<rightharpoonup> 'v"
  heading_context :: "string option"
  chunk_type :: string

record SemanticChunker =
  chunk_size :: int
  chunk_overlap :: int
  min_chunk_size :: int
  preserve_headings :: bool
  preserve_tables :: bool
  preserve_lists :: bool

definition default_chunker :: SemanticChunker where
  \<comment> \<open>the defaults of \<open>SemanticChunker.__init__\<close>\<close>
  "default_chunker =
     \<lparr>chunk_size = 1000, chunk_overlap = 150, min_chunk_size = 100,
      preserve_headings = True, preserve_tables = True, preserve_lists = True\<rparr>"

record Section =
  heading :: "string option"
  section_content :: string

record ProtectedBlocks =
  tables :: "(nat \<times> nat \<times> string) list"
  code_blocks :: "(nat \<times> nat \<times> string) list"

section \<open>The regular expressions\<close>

text \<open>
  Each compiled pattern is modelled by the function the regular-expression engine computes
  for it. None of the patterns can match the empty string, so a match attempt at the start
  of a string is given by the length of the match, with 0 for no match.
\<close>

definition heading_match :: "string \<Rightarrow> string option" where
  \<comment> \<open>\<open>heading_pattern.match(line)\<close> for \<open>^(#{1,6})\s+(.+)$\<close>: \<open>group(2)\<close> of the match.
      The run of \<open>#\<close> must have 1 to 6 characters and be followed by whitespace; \<open>\s+\<close>
      is greedy and gives characters back only when nothing is left for \<open>.+\<close>, which
      stops at a newline\<close>
  "heading_match line =
     (let k = length (takeWhile (\<lambda>c. c = CHR ''#'') line);
          rest = drop k line;
          ws = takeWhile isspace rest;
          after = dropWhile isspace rest
      in if k < 1 \<or> 6 < k \<or> ws = [] then None
         else if after \<noteq> [] then Some (takeWhile (\<lambda>c. c \<noteq> NL) after)
         else (case dropWhile (\<lambda>c. c = NL) (rev (tl ws)) of
                 [] \<Rightarrow> None
               | c # _ \<Rightarrow> Some [c]))"

definition table_row :: "string \<Rightarrow> nat" where
  \<comment> \<open>one repetition \<open>\|[^\n]+\|\n\<close> at the start of \<open>s\<close>: a bar, at least one more
      character, and a bar right before the newline that ends the line\<close>
  "table_row s =
     (case s of
        [] \<Rightarrow> 0
      | c # rest \<Rightarrow>
          if c \<noteq> CHR ''|'' then 0
          else (let line = takeWhile (\<lambda>c. c \<noteq> NL) rest
                in if length line < length rest \<and> 2 \<le> length line \<and> last line = CHR ''|''
                   then length line + 2 else 0))"

function table_match :: "string \<Rightarrow> nat" where
  \<comment> \<open>\<open>table_pattern\<close>, \<open>(\|[^\n]+\|\n)+\<close>, at the start of \<open>s\<close>: rows are taken greedily\<close>
  "table_match s =
     (if table_row s = 0 then 0 else table_row s + table_match (drop (table_row s) s))"
  by pat_completeness auto
termination
  by (relation "measure length") (auto simp: table_row_def split: list.splits if_splits)

declare table_match.simps [simp del]

fun fence_at :: "string \<Rightarrow> bool" where
  "fence_at (a # b # c # _) = (a = CHR 0x60 \<and> b = CHR 0x60 \<and> c = CHR 0x60)"
| "fence_at _ = False"

fun find_fence :: "string \<Rightarrow> nat option" where
  "find_fence [] = None"
| "find_fence (c # cs) =
     (if fence_at (c # cs) then Some 0 else map_option Suc (find_fence cs))"

definition code_block_match :: "string \<Rightarrow> nat" where
  \<comment> \<open>\<open>code_block_pattern\<close>: an opening fence, then lazily up to the first closing fence\<close>
  "code_block_match s =
     (if fence_at s then
        (case find_fence (drop 3 s) of None \<Rightarrow> 0 | Some k \<Rightarrow> 3 + k + 3)
      else 0)"

function finditer_from ::
  "(string \<Rightarrow> nat) \<Rightarrow> nat \<Rightarrow> string \<Rightarrow> (nat \<times> nat \<times> string) list" where
  \<comment> \<open>\<open>pattern.finditer\<close>, scanning the rest \<open>s\<close> of the text from position \<open>pos\<close>: the
      matches \<open>(start, end, group(0))\<close> from left to right, without overlap\<close>
  "finditer_from m pos s =
     (if s = [] then []
      else if m s = 0 then finditer_from m (Suc pos) (tl s)
      else (pos, pos + m s, take (m s) s) # finditer_from m (pos + m s) (drop (m s) s))"
  by pat_completeness auto
termination
  by (relation "measure (\<lambda>(m, pos, s). length s)") auto

declare finditer_from.simps [simp del]

definition finditer :: "(string \<Rightarrow> nat) \<Rightarrow> string \<Rightarrow> (nat \<times> nat \<times> string) list" where
  "finditer m s = finditer_from m 0 s"

definition search :: "(string \<Rightarrow> nat) \<Rightarrow> string \<Rightarrow> bool" where
  \<comment> \<open>the truth value of \<open>pattern.search(content)\<close>\<close>
  "search m s = (finditer m s \<noteq> [])"

function sentence_endings_split :: "string \<Rightarrow> bool \<Rightarrow> string \<Rightarrow> string list" where
  \<comment> \<open>\<open>re.split\<close> on \<open>(?<=[.!?])\s+\<close>: \<open>cur\<close> is the piece read so far and \<open>after_end\<close>
      tells whether the previous character is one of \<open>.\<close>, \<open>!\<close>, \<open>?\<close>\<close>
  "sentence_endings_split cur after_end [] = [cur]"
| "sentence_endings_split cur after_end (c # cs) =
     (if after_end \<and> isspace c then
        cur # sentence_endings_split [] False (dropWhile isspace cs)
      else sentence_endings_split (cur @ [c])
             (c = CHR ''.'' \<or> c = CHR ''!'' \<or> c = CHR ''?'') cs)"
  by pat_completeness auto
termination
  by (relation "measure (\<lambda>(cur, e, s). length s)")
     (auto simp: length_dropWhile_le le_imp_less_Suc)

section \<open>Protected-region scanner\<close>

definition extract_protected_blocks :: "SemanticChunker \<Rightarrow> string \<Rightarrow> ProtectedBlocks" where
  "extract_protected_blocks self content' =
     \<lparr>tables = (if preserve_tables self then finditer table_match content' else []),
      code_blocks = finditer code_block_match content'\<rparr>"

section \<open>Heading sectioner\<close>

definition heading_step ::
  "Section list \<times> string option \<times> string list \<Rightarrow> string \<Rightarrow>
   Section list \<times> string option \<times> string list" where
  \<comment> \<open>one iteration of the loop over the lines, on the state
      \<open>(sections, current_heading, current_content)\<close>\<close>
  "heading_step st line =
     (case st of (sections, current_heading, current_content) \<Rightarrow>
        (case heading_match line of
           Some g \<Rightarrow>
             ((if current_content \<noteq> [] then
                 sections @ [\<lparr>heading = current_heading,
                              section_content = join [NL] current_content\<rparr>]
               else sections),
              Some (strip g), [line])
         | None \<Rightarrow> (sections, current_heading, current_content @ [line])))"

definition split_by_headings :: "string \<Rightarrow> Section list" where
  "split_by_headings content' =
     (case foldl heading_step ([], None, []) (split_char NL content') of
        (sections, current_heading, current_content) \<Rightarrow>
          (let sections = (if current_content \<noteq> [] then
                             sections @ [\<lparr>heading = current_heading,
                                          section_content = join [NL] current_content\<rparr>]
                           else sections)
           in if sections \<noteq> [] then sections
              else [\<lparr>heading = None, section_content = content'\<rparr>]))"

section \<open>Size-bounded text splitter\<close>

definition word_step ::
  "SemanticChunker \<Rightarrow> string list \<times> string \<Rightarrow> string \<Rightarrow> string list \<times> string" where
  \<comment> \<open>the loop over the words of an oversized sentence, on \<open>(chunks, current_chunk)\<close>\<close>
  "word_step self st word =
     (case st of (chunks, current_chunk) \<Rightarrow>
        if int (length current_chunk) + int (length word) + 1 \<le> chunk_size self then
          (chunks, current_chunk @ (if current_chunk \<noteq> [] then '' '' else []) @ word)
        else
          ((if current_chunk \<noteq> [] then chunks @ [current_chunk] else chunks), word))"

definition sentence_step ::
  "SemanticChunker \<Rightarrow> string list \<times> string \<Rightarrow> string \<Rightarrow> string list \<times> string" where
  \<comment> \<open>the loop over the sentences, on \<open>(chunks, current_chunk)\<close>\<close>
  "sentence_step self st sentence =
     (case st of (chunks, current_chunk) \<Rightarrow>
        (let potential_chunk =
               current_chunk @ (if current_chunk \<noteq> [] then '' '' else []) @ sentence
         in if int (length potential_chunk) \<le> chunk_size self then (chunks, potential_chunk)
            else
              (let chunks = (if current_chunk \<noteq> [] then chunks @ [current_chunk]
                             else chunks)
               in if int (length sentence) > chunk_size self then
                    foldl (word_step self) (chunks, []) (split_ws sentence)
                  else (chunks, sentence))))"

definition split_by_sentences :: "SemanticChunker \<Rightarrow> string \<Rightarrow> string list" where
  "split_by_sentences self text =
     (case foldl (sentence_step self) ([], []) (sentence_endings_split [] False text) of
        (chunks, current_chunk) \<Rightarrow>
          if current_chunk \<noteq> [] then chunks @ [current_chunk] else chunks)"

definition paragraph_step ::
  "SemanticChunker \<Rightarrow> string list \<times> string \<Rightarrow> string \<Rightarrow> string list \<times> string" where
  \<comment> \<open>the loop over the paragraphs, on \<open>(chunks, current_chunk)\<close>\<close>
  "paragraph_step self st para0 =
     (case st of (chunks, current_chunk) \<Rightarrow>
        (let para = strip para0
         in if para = [] then (chunks, current_chunk)
            else
              (let potential_chunk =
                     current_chunk @ (if current_chunk \<noteq> [] then [NL, NL] else []) @ para
               in if int (length potential_chunk) \<le> chunk_size self then
                    (chunks, potential_chunk)
                  else
                    (let chunks = (if current_chunk \<noteq> [] then chunks @ [current_chunk]
                                   else chunks)
                     in if int (length para) > chunk_size self then
                          (let sentence_chunks = split_by_sentences self para
                           in (chunks @ butlast sentence_chunks,
                               (if sentence_chunks \<noteq> [] then last sentence_chunks else [])))
                        else (chunks, para)))))"

definition chunk_text :: "SemanticChunker \<Rightarrow> string \<Rightarrow> string list" where
  "chunk_text self text =
     (if int (length text) \<le> chunk_size self then
        (if strip text \<noteq> [] then [text] else [])
      else
        (case foldl (paragraph_step self) ([], []) (split_paragraphs text) of
           (chunks, current_chunk) \<Rightarrow>
             if current_chunk \<noteq> [] then chunks @ [current_chunk] else chunks))"

section \<open>Section assembler\<close>

definition around_step ::
  "string \<Rightarrow> (string \<times> bool) list \<times> nat \<Rightarrow> nat \<times> nat \<times> string \<Rightarrow>
   (string \<times> bool) list \<times> nat" where
  \<comment> \<open>one match of the loop of \<open>_split_around_pattern\<close>, on \<open>(result, last_end)\<close>\<close>
  "around_step content' st mt =
     (case st of (result, last_end) \<Rightarrow>
        (case mt of (start, end', group0) \<Rightarrow>
           (let result = (if start > last_end then
                            result @ [(take (start - last_end) (drop last_end content'), False)]
                          else result)
            in (result @ [(group0, True)], end'))))"

definition split_around_pattern ::
  "string \<Rightarrow> (string \<Rightarrow> nat) \<Rightarrow> (string \<times> bool) list" where
  "split_around_pattern content' pattern =
     (case foldl (around_step content') ([], 0) (finditer pattern content') of
        (result, last_end) \<Rightarrow>
          if last_end < length content' then result @ [(drop last_end content', False)]
          else result)"

definition chunk_section ::
  "SemanticChunker \<Rightarrow> string \<Rightarrow> string option \<Rightarrow> ProtectedBlocks \<Rightarrow>
   (string \<times> string) list" where
  "chunk_section self content' heading' protected_blocks =
     (if preserve_tables self \<and> search table_match content' then
        concat (map (\<lambda>(part, is_match).
                       if is_match then [(part, ''table'')]
                       else map (\<lambda>c. (c, ''text'')) (chunk_text self part))
                    (split_around_pattern content' table_match))
      else map (\<lambda>c. (c, ''text'')) (chunk_text self content'))"

section \<open>Overlap stitcher\<close>

definition get_overlap_text :: "SemanticChunker \<Rightarrow> string \<Rightarrow> string" where
  "get_overlap_text self text =
     (if int (length text) \<le> chunk_overlap self then []
      else
        (let overlap = slice_from (- chunk_overlap self) text;
             first_space = find_char (CHR '' '') overlap;
             overlap = (if first_space > 0 then slice_from (first_space + 1) overlap
                        else overlap)
         in if overlap \<noteq> [] then ''[...] '' @ overlap else []))"

definition overlap_step ::
  "SemanticChunker \<Rightarrow> ('k, 'v) DocumentChunk list \<Rightarrow> nat \<Rightarrow> ('k, 'v) DocumentChunk list" where
  \<comment> \<open>the body of the loop of \<open>_apply_overlap\<close> at index \<open>i\<close>; the chunk objects are
      distinct, so the in-place assignment to \<open>curr_chunk.content\<close> is an update of
      position \<open>i\<close> of the list, and \<open>chunks[i - 1]\<close> reads the list as updated so far\<close>
  "overlap_step self chunks i =
     (let prev_chunk = chunks ! (i - 1);
          curr_chunk = chunks ! i
      in if chunk_type prev_chunk = ''text'' \<and> chunk_type curr_chunk = ''text'' then
           (let overlap_text = get_overlap_text self (content prev_chunk)
            in if overlap_text \<noteq> [] then
                 chunks[i := curr_chunk\<lparr>content :=
                               overlap_text @ [NL, NL] @ content curr_chunk\<rparr>]
               else chunks)
         else chunks)"

definition apply_overlap ::
  "SemanticChunker \<Rightarrow> ('k, 'v) DocumentChunk list \<Rightarrow> ('k, 'v) DocumentChunk list" where
  "apply_overlap self chunks =
     (if chunk_overlap self \<le> 0 \<or> length chunks \<le> 1 then chunks
      else foldl (overlap_step self) chunks [1..<length chunks])"

section \<open>Orchestrator\<close>

definition piece_step ::
  "SemanticChunker \<Rightarrow> ('k \<rightharpoonup> 'v) \<Rightarrow> string option \<Rightarrow>
   ('k, 'v) DocumentChunk list \<times> int \<Rightarrow> string \<times> string \<Rightarrow>
   ('k, 'v) DocumentChunk list \<times> int" where
  \<comment> \<open>the inner loop of \<open>chunk_document\<close>, on \<open>(chunks, chunk_index)\<close>\<close>
  "piece_step self metadata' heading' st piece =
     (case st of (chunks, chunk_index') \<Rightarrow>
        (case piece of (content', chunk_type') \<Rightarrow>
           if int (length (strip content')) \<ge> min_chunk_size self then
             (chunks @ [\<lparr>content = strip content', chunk_index = chunk_index',
                          metadata = metadata', heading_context = heading',
                          chunk_type = chunk_type'\<rparr>],
              chunk_index' + 1)
           else (chunks, chunk_index')))"

definition section_step ::
  "SemanticChunker \<Rightarrow> ('k \<rightharpoonup> 'v) \<Rightarrow> ProtectedBlocks \<Rightarrow>
   ('k, 'v) DocumentChunk list \<times> int \<Rightarrow> Section \<Rightarrow>
   ('k, 'v) DocumentChunk list \<times> int" where
  \<comment> \<open>the outer loop of \<open>chunk_document\<close>\<close>
  "section_step self metadata' protected_blocks st section' =
     foldl (piece_step self metadata' (heading section')) st
       (chunk_section self (section_content section') (heading section') protected_blocks)"

definition chunk_document ::
  "SemanticChunker \<Rightarrow> string \<Rightarrow> ('k \<rightharpoonup> 'v) option \<Rightarrow> ('k, 'v) DocumentChunk list" where
  "chunk_document self markdown_content metadata' =
     (let metadata' = (case metadata' of None \<Rightarrow> Map.empty | Some m \<Rightarrow> m);
          protected_blocks = extract_protected_blocks self markdown_content;
          sections = split_by_headings markdown_content;
          chunks = fst (foldl (section_step self metadata' protected_blocks) ([], 0) sections)
      in apply_overlap self chunks)"

section \<open>Example inputs\<close>

definition ex_overlap5 :: SemanticChunker where
  "ex_overlap5 = default_chunker\<lparr>chunk_overlap := 5\<rparr>"

definition ex_mixed_chunks :: "(string, string) DocumentChunk list" where
  "ex_mixed_chunks =
     [\<lparr>content = ''aaa bbb ccc'', chunk_index = 0, metadata = Map.empty,
       heading_context = None, chunk_type = ''text''\<rparr>,
      \<lparr>content = ''|t|u|'', chunk_index = 1, metadata = Map.empty,
       heading_context = None, chunk_type = ''table''\<rparr>,
      \<lparr>content = ''ddd eee fff'', chunk_index = 2, metadata = Map.empty,
       heading_context = Some ''H'', chunk_type = ''text''\<rparr>,
      \<lparr>content = ''ggg'', chunk_index = 3, metadata = Map.empty,
       heading_context = Some ''H'', chunk_type = ''text''\<rparr>]"

section \<open>Auxiliary notions for the proofs\<close>

definition sections_text :: "Section list \<times> string option \<times> string list \<Rightarrow> string" where
  "sections_text st =
     (case st of (sections, current_heading, current_content) \<Rightarrow>
        join [NL] (map section_content sections @
                   (if current_content \<noteq> [] then [join [NL] current_content] else [])))"

definition mk_chunk ::
  "('k \<rightharpoonup> 'v) \<Rightarrow> nat \<times> string option \<times> string \<times> string \<Rightarrow> ('k, 'v) DocumentChunk" where
  "mk_chunk md ip =
     (case ip of (i, h, c, t) \<Rightarrow>
        \<lparr>content = strip c, chunk_index = int i, metadata = md,
         heading_context = h, chunk_type = t\<rparr>)"

definition number_chunks ::
  "('k \<rightharpoonup> 'v) \<Rightarrow> nat \<Rightarrow> (string option \<times> string \<times> string) list \<Rightarrow>
   ('k, 'v) DocumentChunk list" where
  "number_chunks md n ps = map (mk_chunk md) (enumerate n ps)"

definition keeps :: "SemanticChunker \<Rightarrow> string option \<times> string \<times> string \<Rightarrow> bool" where
  "keeps self p = (case p of (h, c, t) \<Rightarrow> min_chunk_size self \<le> int (length (strip c)))"

definition section_pieces ::
  "SemanticChunker \<Rightarrow> ProtectedBlocks \<Rightarrow> Section \<Rightarrow> (string option \<times> string \<times> string) list" where
  "section_pieces self pb sec =
     map (Pair (heading sec))
         (chunk_section self (section_content sec) (heading sec) pb)"

definition all_pieces :: "SemanticChunker \<Rightarrow> string \<Rightarrow> (string option \<times> string \<times> string) list" where
  "all_pieces self doc =
     concat (map (section_pieces self (extract_protected_blocks self doc))
                 (split_by_headings doc))"

definition ex_small :: SemanticChunker where
  "ex_small = default_chunker\<lparr>chunk_size := 12, chunk_overlap := 5, min_chunk_size := 3\<rparr>"

definition ex_two_paragraphs :: string where
  "ex_two_paragraphs = ''aaa bbb ccc'' @ [NL, NL] @ ''ddd eee fff''"

definition ex_size10 :: SemanticChunker where
  "ex_size10 = default_chunker\<lparr>chunk_size := 10\<rparr>"

definition ex_long_word :: string where
  "ex_long_word = ''aaa bbb ccc. dddddddddddddd ee''"

definition piece_ok :: "SemanticChunker \<Rightarrow> string \<Rightarrow> bool" where
  "piece_ok self p =
     (int (length p) \<le> chunk_size self \<or> (p \<noteq> [] \<and> (\<forall>c \<in> set p. \<not> isspace c)))"

definition state_ok :: "SemanticChunker \<Rightarrow> string list \<times> string \<Rightarrow> bool" where
  "state_ok self st =
     (case st of (chunks, current_chunk) \<Rightarrow>
        (\<forall>p \<in> set chunks. piece_ok self p) \<and>
        (current_chunk = [] \<or> piece_ok self current_chunk))"

definition ex_heading_doc :: string where
  "ex_heading_doc = ''# A'' @ [NL, NL] @ ''Short text.''"

definition ex_overlap3 :: SemanticChunker where
  "ex_overlap3 = default_chunker\<lparr>chunk_overlap := 3\<rparr>"

definition ex_cascade :: SemanticChunker where
  "ex_cascade = default_chunker\<lparr>chunk_size := 11, chunk_overlap := 5, min_chunk_size := 2\<rparr>"

definition ex_cascade_doc :: string where
  "ex_cascade_doc = ''aaa bbb ccc'' @ [NL, NL] @ ''xy'' @ [NL, NL] @ ''uvw uvw uvw''"

definition ex_mid_word_doc :: string where
  "ex_mid_word_doc = ''aaa bbbbbbb'' @ [NL, NL] @ ''ddd eee fff''"

definition ex_big_min :: SemanticChunker where
  "ex_big_min = default_chunker\<lparr>chunk_size := 50\<rparr>"

definition ex_big_overlap :: SemanticChunker where
  "ex_big_overlap = default_chunker\<lparr>chunk_size := 5, chunk_overlap := 5, min_chunk_size := 2\<rparr>"

definition ex_equal_overlap :: SemanticChunker where
  "ex_equal_overlap = default_chunker\<lparr>chunk_size := 12, chunk_overlap := 12, min_chunk_size := 3\<rparr>"

definition ex_min1 :: SemanticChunker where
  "ex_min1 = default_chunker\<lparr>min_chunk_size := 1\<rparr>"

definition ex_table_doc :: string where
  "ex_table_doc = ''|a|b|'' @ [NL] @ ''|c|d|'' @ [NL]"

definition ex_table_heading_doc :: string where
  "ex_table_heading_doc = ''|a|'' @ [NL] @ ''|b|'' @ [NL] @ ''# H''"

definition ex_min_above_size :: SemanticChunker where
  "ex_min_above_size =
     default_chunker\<lparr>chunk_size := 5, chunk_overlap := 3, min_chunk_size := 8\<rparr>"

definition ex_long_words_doc :: string where
  "ex_long_words_doc = ''abcdefgh xy abcdefghi''"

definition ex_word_doc :: string where
  "ex_word_doc = ''aaa bbb ccc'' @ [NL, NL] @ ''ddddd'' @ [NL, NL] @ ''eee fff ggg''"

section \<open>Properties of the overlap stitcher\<close>

lemma map_update_same:
  assumes "f x = f (xs ! i)"
  shows "map f (xs[i := x]) = map f xs"
proof (cases "i < length xs")
  case True
  with assms have "(map f xs)[i := f x] = map f xs"
    by (metis list_update_id nth_map)
  then show ?thesis by (simp add: map_update)
next
  case False
  then show ?thesis by (simp add: list_update_beyond not_less)
qed

lemma overlap_step_length: "length (overlap_step self cs i) = length cs"
  by (simp add: overlap_step_def Let_def)

lemma overlap_step_frame:
  "map chunk_index (overlap_step self cs i) = map chunk_index cs"
  "map metadata (overlap_step self cs i) = map metadata cs"
  "map heading_context (overlap_step self cs i) = map heading_context cs"
  "map chunk_type (overlap_step self cs i) = map chunk_type cs"
  by (simp_all add: overlap_step_def Let_def map_update_same)

lemma overlap_fold_length: "length (foldl (overlap_step self) cs js) = length cs"
  by (induction js arbitrary: cs) (simp_all add: overlap_step_length)

lemma overlap_fold_frame:
  "map chunk_index (foldl (overlap_step self) cs js) = map chunk_index cs"
  "map metadata (foldl (overlap_step self) cs js) = map metadata cs"
  "map heading_context (foldl (overlap_step self) cs js) = map heading_context cs"
  "map chunk_type (foldl (overlap_step self) cs js) = map chunk_type cs"
  by (induction js arbitrary: cs) (simp_all add: overlap_step_frame)

lemma apply_overlap_length: "length (apply_overlap self cs) = length cs"
  by (simp add: apply_overlap_def overlap_fold_length)

lemma apply_overlap_map:
  "map chunk_index (apply_overlap self cs) = map chunk_index cs"
  "map metadata (apply_overlap self cs) = map metadata cs"
  "map heading_context (apply_overlap self cs) = map heading_context cs"
  "map chunk_type (apply_overlap self cs) = map chunk_type cs"
  by (simp_all add: apply_overlap_def overlap_fold_frame)

lemma overlap_step_other:
  "j \<noteq> i \<Longrightarrow> overlap_step self cs i ! j = cs ! j"
  by (simp add: overlap_step_def Let_def)

lemma overlap_step_untouched:
  "chunk_type (cs ! i) \<noteq> ''text'' \<or> chunk_type (cs ! (i - 1)) \<noteq> ''text''
   \<Longrightarrow> overlap_step self cs i = cs"
  by (auto simp: overlap_step_def Let_def)

lemma overlap_fold_type_nth:
  "k < length cs \<Longrightarrow> chunk_type (foldl (overlap_step self) cs js ! k) = chunk_type (cs ! k)"
  using overlap_fold_frame(4)[of self cs js] overlap_fold_length[of self cs js]
  by (metis nth_map)

lemma overlap_fold_content:
  assumes "n \<le> length cs"
  shows "j < length cs \<Longrightarrow>
     (j = 0 \<or> n \<le> j \<or> chunk_type (cs ! j) \<noteq> ''text'' \<or> chunk_type (cs ! (j - 1)) \<noteq> ''text'')
     \<Longrightarrow> content (foldl (overlap_step self) cs [1..<n] ! j) = content (cs ! j)"
  using assms
proof (induction n)
  case 0
  then show ?case by simp
next
  case (Suc n)
  show ?case
  proof (cases "1 \<le> n")
    case False
    then have "n = 0" by simp
    then show ?thesis by simp
  next
    case True
    let ?F = "foldl (overlap_step self) cs [1..<n]"
    have step: "foldl (overlap_step self) cs [1..<Suc n] = overlap_step self ?F n"
      using True by simp
    have nlt: "n < length cs" using Suc.prems by simp
    show ?thesis
    proof (cases "j = n")
      case False
      then have "overlap_step self ?F n ! j = ?F ! j" by (rule overlap_step_other)
      moreover have "content (?F ! j) = content (cs ! j)"
        using Suc.IH Suc.prems False by auto
      ultimately show ?thesis by (simp add: step)
    next
      case jn: True
      have ty: "chunk_type (cs ! n) \<noteq> ''text'' \<or> chunk_type (cs ! (n - 1)) \<noteq> ''text''"
        using Suc.prems jn True by auto
      have "chunk_type (?F ! n) = chunk_type (cs ! n)"
        using nlt by (rule overlap_fold_type_nth)
      moreover have "chunk_type (?F ! (n - 1)) = chunk_type (cs ! (n - 1))"
        using nlt by (intro overlap_fold_type_nth) simp
      ultimately have "overlap_step self ?F n = ?F"
        using ty by (intro overlap_step_untouched) simp
      moreover have "content (?F ! j) = content (cs ! j)"
        using Suc.IH Suc.prems jn by auto
      ultimately show ?thesis by (simp add: step)
    qed
  qed
qed

lemma apply_overlap_content_kept:
  "j < length cs \<Longrightarrow>
   j = 0 \<or> chunk_type (cs ! j) \<noteq> ''text'' \<or> chunk_type (cs ! (j - 1)) \<noteq> ''text''
   \<Longrightarrow> content (apply_overlap self cs ! j) = content (cs ! j)"
  using overlap_fold_content[of "length cs" cs j self]
  by (auto simp: apply_overlap_def)

text \<open>
  Claim C10. Overlap stitching changes content fields only: the returned list has the
  length of the given one and, position by position, the same \<open>chunk_index\<close>,
  \<open>metadata\<close>, \<open>heading_context\<close> and \<open>chunk_type\<close>; the first chunk, every chunk
  whose type is not \<open>text\<close> and every chunk whose predecessor's type is not \<open>text\<close>
  keep their content as well.
\<close>

theorem apply_overlap_frame:
  "length (apply_overlap self chunks) = length chunks \<and>
   (\<forall>i < length chunks.
      chunk_index (apply_overlap self chunks ! i) = chunk_index (chunks ! i) \<and>
      metadata (apply_overlap self chunks ! i) = metadata (chunks ! i) \<and>
      heading_context (apply_overlap self chunks ! i) = heading_context (chunks ! i) \<and>
      chunk_type (apply_overlap self chunks ! i) = chunk_type (chunks ! i) \<and>
      (i = 0 \<or> chunk_type (chunks ! i) \<noteq> ''text'' \<or> chunk_type (chunks ! (i - 1)) \<noteq> ''text''
         \<longrightarrow> content (apply_overlap self chunks ! i) = content (chunks ! i)))"
proof (intro conjI allI impI)
  show "length (apply_overlap self chunks) = length chunks"
    by (rule apply_overlap_length)
next
  fix i assume i: "i < length chunks"
  then have i': "i < length (apply_overlap self chunks)" by (simp add: apply_overlap_length)
  show "chunk_index (apply_overlap self chunks ! i) = chunk_index (chunks ! i)"
    using apply_overlap_map(1)[of self chunks] i i' by (metis nth_map)
  show "metadata (apply_overlap self chunks ! i) = metadata (chunks ! i)"
    using apply_overlap_map(2)[of self chunks] i i' by (metis nth_map)
  show "heading_context (apply_overlap self chunks ! i) = heading_context (chunks ! i)"
    using apply_overlap_map(3)[of self chunks] i i' by (metis nth_map)
  show "chunk_type (apply_overlap self chunks ! i) = chunk_type (chunks ! i)"
    using apply_overlap_map(4)[of self chunks] i i' by (metis nth_map)
  assume "i = 0 \<or> chunk_type (chunks ! i) \<noteq> ''text'' \<or> chunk_type (chunks ! (i - 1)) \<noteq> ''text''"
  with i show "content (apply_overlap self chunks ! i) = content (chunks ! i)"
    by (rule apply_overlap_content_kept)
qed

theorem apply_overlap_frame_witness:
  "length (apply_overlap ex_overlap5 ex_mixed_chunks) = length ex_mixed_chunks \<and>
   (2::nat) < length ex_mixed_chunks \<and>
   chunk_type (ex_mixed_chunks ! (2 - 1)) \<noteq> ''text'' \<and>
   chunk_index (apply_overlap ex_overlap5 ex_mixed_chunks ! 2) = 2 \<and>
   chunk_type (apply_overlap ex_overlap5 ex_mixed_chunks ! 2) = ''text'' \<and>
   content (apply_overlap ex_overlap5 ex_mixed_chunks ! 2) = ''ddd eee fff''"
proof -
  have h: "(2::nat) < length ex_mixed_chunks"
    by (simp add: ex_mixed_chunks_def)
  have t: "chunk_type (ex_mixed_chunks ! (2 - 1)) \<noteq> ''text''"
    by (simp add: ex_mixed_chunks_def)
  from apply_overlap_frame [of ex_overlap5 ex_mixed_chunks] h t
  show ?thesis by (simp add: ex_mixed_chunks_def)
qed

section \<open>Properties of the heading sectioner\<close>

lemma split_char_nonempty: "split_char sep s \<noteq> []"
  by (induction s) (simp_all add: Let_def)

lemma join_Cons_Cons: "join sep ((c # x) # xs) = c # join sep (x # xs)"
  by (cases xs) simp_all

lemma join_Cons_nonempty: "xs \<noteq> [] \<Longrightarrow> join sep (x # xs) = x @ sep @ join sep xs"
  by (cases xs) simp_all

lemma join_split_char: "join [sep] (split_char sep s) = s"
proof (induction s)
  case Nil
  show ?case by simp
next
  case (Cons c cs)
  obtain r rs where r: "split_char sep cs = r # rs"
    using split_char_nonempty[of sep cs] by (cases "split_char sep cs") auto
  show ?case
  proof (cases "c = sep")
    case True
    then show ?thesis using Cons.IH by (simp add: Let_def join_Cons_nonempty split_char_nonempty)
  next
    case False
    then show ?thesis using Cons.IH r by (simp add: Let_def join_Cons_Cons)
  qed
qed

lemma join_append:
  "xs \<noteq> [] \<Longrightarrow> ys \<noteq> [] \<Longrightarrow> join sep (xs @ ys) = join sep xs @ sep @ join sep ys"
proof (induction xs)
  case Nil
  then show ?case by simp
next
  case (Cons x xs)
  show ?case
  proof (cases "xs = []")
    case True
    then show ?thesis using Cons.prems by (simp add: join_Cons_nonempty)
  next
    case False
    then show ?thesis using Cons by (simp add: join_Cons_nonempty)
  qed
qed

lemma join_snoc_append: "join sep (xs @ [a @ b]) = join sep (xs @ [a]) @ b"
proof (induction xs)
  case Nil
  show ?case by simp
next
  case (Cons x xs)
  then show ?case by (simp add: join_Cons_nonempty)
qed

lemma join_snoc: "xs \<noteq> [] \<Longrightarrow> join sep (xs @ [a]) = join sep xs @ sep @ a"
  using join_append[of xs "[a]" sep] by simp

lemma join_nl_lines: "join [NL] (l # ls) = l @ concat (map ((#) NL) ls)"
proof (induction ls arbitrary: l)
  case Nil
  show ?case by simp
next
  case (Cons a ls)
  then show ?case by (simp add: join_Cons_nonempty)
qed

lemma heading_step_text:
  assumes "st' = heading_step st line"
  shows "snd (snd st') \<noteq> [] \<and>
         sections_text st' =
           (if fst st = [] \<and> snd (snd st) = [] then line else sections_text st @ NL # line)"
proof -
  obtain secs h cur where st: "st = (secs, h, cur)" by (cases st) auto
  show ?thesis
  proof (cases "cur = []")
    case True
    then show ?thesis using assms st
      by (cases "secs = []")
         (auto simp: heading_step_def sections_text_def join_snoc split: option.splits)
  next
    case False
    have a: "join [NL] (map section_content secs @ [join [NL] cur, line]) =
             join [NL] (map section_content secs @ [join [NL] cur]) @ NL # line"
      using join_snoc[of "map section_content secs @ [join [NL] cur]" "[NL]" line] by simp
    have b: "join [NL] (map section_content secs @ [join [NL] (cur @ [line])]) =
             join [NL] (map section_content secs @ [join [NL] cur]) @ NL # line"
      using False join_snoc_append[of "[NL]" "map section_content secs" "join [NL] cur" "NL # line"]
      by (simp add: join_snoc)
    show ?thesis using assms st False a b
      by (auto simp: heading_step_def sections_text_def split: option.splits)
  qed
qed

lemma heading_fold_text:
  "snd (snd st) \<noteq> [] \<Longrightarrow>
   snd (snd (foldl heading_step st ls)) \<noteq> [] \<and>
   sections_text (foldl heading_step st ls) = sections_text st @ concat (map ((#) NL) ls)"
proof (induction ls arbitrary: st)
  case Nil
  then show ?case by simp
next
  case (Cons l ls)
  have s: "snd (snd (heading_step st l)) \<noteq> [] \<and>
           sections_text (heading_step st l) = sections_text st @ NL # l"
    using heading_step_text[OF refl, of st l] Cons.prems by simp
  then show ?case using Cons.IH[of "heading_step st l"] by simp
qed

text \<open>
  Claim C9. The heading sectioner neither drops nor reorders a character: the contents of
  the returned sections, in order and joined by a newline, are the input text (a heading
  line is the first line of its section's content).
\<close>

theorem split_by_headings_roundtrip:
  "join [NL] (map section_content (split_by_headings doc)) = doc"
proof -
  obtain l ls where lines: "split_char NL doc = l # ls"
    using split_char_nonempty[of NL doc] by (cases "split_char NL doc") auto
  let ?s1 = "heading_step ([], None, []) l"
  let ?fin = "foldl heading_step ?s1 ls"
  have s1: "snd (snd ?s1) \<noteq> [] \<and> sections_text ?s1 = l"
    using heading_step_text[OF refl, of "([], None, [])" l] by simp
  then have fin: "snd (snd ?fin) \<noteq> [] \<and>
                  sections_text ?fin = l @ concat (map ((#) NL) ls)"
    using heading_fold_text[of ?s1 ls] by simp
  obtain secs h cur where f: "?fin = (secs, h, cur)" by (cases ?fin) auto
  have cur: "cur \<noteq> []" using fin f by simp
  have "split_by_headings doc =
          secs @ [\<lparr>heading = h, section_content = join [NL] cur\<rparr>]"
    using f cur by (simp add: split_by_headings_def lines)
  then have "join [NL] (map section_content (split_by_headings doc)) = sections_text ?fin"
    using f cur by (simp add: sections_text_def)
  also have "\<dots> = join [NL] (l # ls)" using fin by (simp add: join_nl_lines)
  also have "\<dots> = doc" using join_split_char[of NL doc] lines by simp
  finally show ?thesis .
qed

section \<open>Properties of the orchestrator\<close>

lemma number_chunks_append:
  "number_chunks md n (xs @ ys) = number_chunks md n xs @ number_chunks md (n + length xs) ys"
  by (simp add: number_chunks_def enumerate_append_eq)

lemma length_number_chunks: "length (number_chunks md n ps) = length ps"
  by (simp add: number_chunks_def)

lemma piece_fold:
  "foldl (piece_step self md h) (chunks, int (length chunks)) ps =
     (chunks @ number_chunks md (length chunks)
                 (filter (keeps self) (map (Pair h) ps)),
      int (length chunks + length (filter (keeps self) (map (Pair h) ps))))"
proof (induction ps arbitrary: chunks)
  case Nil
  show ?case by (simp add: number_chunks_def)
next
  case (Cons p ps)
  obtain c t where p: "p = (c, t)" by (cases p) auto
  show ?case
  proof (cases "keeps self (h, c, t)")
    case True
    let ?ch = "chunks @ [mk_chunk md (length chunks, h, c, t)]"
    have "piece_step self md h (chunks, int (length chunks)) p = (?ch, int (length ?ch))"
      using True by (simp add: piece_step_def p keeps_def mk_chunk_def)
    then show ?thesis
      using Cons.IH[of ?ch] True by (simp add: p number_chunks_def)
  next
    case False
    have "piece_step self md h (chunks, int (length chunks)) p = (chunks, int (length chunks))"
      using False by (simp add: piece_step_def p keeps_def)
    then show ?thesis using Cons.IH[of chunks] False by (simp add: p)
  qed
qed

lemma section_fold:
  "foldl (section_step self md pb) (chunks, int (length chunks)) secs =
     (chunks @ number_chunks md (length chunks)
                 (filter (keeps self) (concat (map (section_pieces self pb) secs))),
      int (length chunks +
           length (filter (keeps self) (concat (map (section_pieces self pb) secs)))))"
proof (induction secs arbitrary: chunks)
  case Nil
  show ?case by (simp add: number_chunks_def)
next
  case (Cons sec secs)
  let ?ps = "filter (keeps self) (section_pieces self pb sec)"
  let ?ch = "chunks @ number_chunks md (length chunks) ?ps"
  have len: "length ?ch = length chunks + length ?ps"
    by (simp add: length_number_chunks)
  have "section_step self md pb (chunks, int (length chunks)) sec = (?ch, int (length ?ch))"
    by (simp add: section_step_def piece_fold section_pieces_def length_number_chunks)
  then show ?case
    using Cons.IH[of ?ch] by (simp add: number_chunks_append length_number_chunks add.assoc)
qed

lemma chunk_document_eq:
  "chunk_document self doc md =
     apply_overlap self
       (number_chunks (case md of None \<Rightarrow> Map.empty | Some m \<Rightarrow> m) 0
          (filter (keeps self) (all_pieces self doc)))"
proof -
  let ?md = "case md of None \<Rightarrow> Map.empty | Some m \<Rightarrow> m"
  have "foldl (section_step self ?md (extract_protected_blocks self doc))
          ([], int (length ([] :: ('a, 'b) DocumentChunk list))) (split_by_headings doc) =
        (number_chunks ?md 0 (filter (keeps self) (all_pieces self doc)),
         int (length (filter (keeps self) (all_pieces self doc))))"
    unfolding section_fold all_pieces_def by simp
  then show ?thesis by (simp add: chunk_document_def Let_def)
qed

lemma number_chunks_index:
  "map chunk_index (number_chunks md n ps) = map int [n..<n + length ps]"
proof -
  have c: "chunk_index \<circ> mk_chunk md = int \<circ> fst"
    by (auto simp: fun_eq_iff mk_chunk_def)
  have "map chunk_index (number_chunks md n ps) =
          map (chunk_index \<circ> mk_chunk md) (enumerate n ps)"
    by (simp add: number_chunks_def)
  also have "\<dots> = map int (map fst (enumerate n ps))"
    by (simp only: c map_map)
  also have "\<dots> = map int [n..<n + length ps]"
    by (simp only: map_fst_enumerate)
  finally show ?thesis .
qed

text \<open>
  Claim C6. For every document, metadata mapping and configuration, the \<open>chunk_index\<close>
  fields of the list returned by \<open>chunk_document\<close> are 0, 1, ..., n-1 in list order,
  where n is the length of the list.
\<close>

theorem chunk_document_indices:
  "map chunk_index (chunk_document self doc md) =
     map int [0..<length (chunk_document self doc md)]"
  by (simp add: chunk_document_eq apply_overlap_map apply_overlap_length
        number_chunks_index length_number_chunks)

section \<open>Minimum size of the returned chunks\<close>

lemma strip_prefix_suffix:
  "dropWhile isspace s = strip s @ rev (takeWhile isspace (rev (dropWhile isspace s)))"
proof -
  let ?t = "dropWhile isspace s"
  have "rev (rev ?t) = rev (takeWhile isspace (rev ?t) @ dropWhile isspace (rev ?t))"
    by (simp only: takeWhile_dropWhile_id)
  then show ?thesis by (simp only: strip_def rev_rev_ident rev_append)
qed

lemma strip_hd: "strip s \<noteq> [] \<Longrightarrow> \<not> isspace (hd (strip s))"
proof -
  assume ne: "strip s \<noteq> []"
  let ?t = "dropWhile isspace s"
  have "hd ?t = hd (strip s)"
    using strip_prefix_suffix[of s] ne by (metis hd_append2)
  moreover have "?t \<noteq> []" using strip_prefix_suffix[of s] ne by (metis append_is_Nil_conv)
  ultimately show ?thesis using hd_dropWhile[of isspace s] by metis
qed

lemma strip_last: "strip s \<noteq> [] \<Longrightarrow> \<not> isspace (last (strip s))"
proof -
  assume ne: "strip s \<noteq> []"
  let ?u = "dropWhile isspace (rev (dropWhile isspace s))"
  have u: "?u \<noteq> []" using ne by (simp add: strip_def)
  then have "\<not> isspace (hd ?u)" by (rule hd_dropWhile)
  moreover have "last (strip s) = hd ?u" using u by (simp add: strip_def last_rev)
  ultimately show ?thesis by simp
qed

lemma strip_fixed:
  assumes "s \<noteq> []" "\<not> isspace (hd s)" "\<not> isspace (last s)"
  shows "strip s = s"
proof -
  have a: "dropWhile isspace s = s" using assms by (cases s) auto
  have "rev s \<noteq> []" "\<not> isspace (hd (rev s))" using assms by (simp_all add: hd_rev)
  then have "dropWhile isspace (rev s) = rev s" by (cases "rev s") auto
  then show ?thesis by (simp add: strip_def a)
qed

lemma strip_strip: "strip (strip s) = strip s"
proof (cases "strip s = []")
  case True
  have "strip [] = []" by (simp add: strip_def)
  then show ?thesis using True by simp
next
  case False
  then show ?thesis by (intro strip_fixed strip_hd strip_last)
qed

lemma strip_with_prefix:
  assumes "\<not> isspace a"
  shows "length (strip s) \<le> length (strip (a # p @ strip s))"
proof (cases "strip s = []")
  case True
  then show ?thesis by simp
next
  case False
  have "last (a # p @ strip s) = last (strip s)" using False by simp
  then have "strip (a # p @ strip s) = a # p @ strip s"
    using assms strip_last[OF False] by (intro strip_fixed) simp_all
  then show ?thesis by simp
qed

lemma get_overlap_text_shape:
  "get_overlap_text self x \<noteq> [] \<Longrightarrow> \<exists>ov. get_overlap_text self x = ''[...] '' @ ov"
  by (auto simp: get_overlap_text_def Let_def split: if_splits)

lemma overlap_step_at:
  "i < length cs \<Longrightarrow>
   content (overlap_step self cs i ! i) =
     (if chunk_type (cs ! (i - 1)) = ''text'' \<and> chunk_type (cs ! i) = ''text'' \<and>
         get_overlap_text self (content (cs ! (i - 1))) \<noteq> []
      then get_overlap_text self (content (cs ! (i - 1))) @ [NL, NL] @ content (cs ! i)
      else content (cs ! i))"
  by (simp add: overlap_step_def Let_def)

lemma overlap_fold_shape:
  assumes "n \<le> length cs" "j < length cs"
  shows "content (foldl (overlap_step self) cs [1..<n] ! j) = content (cs ! j) \<or>
         (\<exists>ov. content (foldl (overlap_step self) cs [1..<n] ! j) =
                 ''[...] '' @ ov @ [NL, NL] @ content (cs ! j))"
  using assms
proof (induction n)
  case 0
  then show ?case by simp
next
  case (Suc n)
  show ?case
  proof (cases "1 \<le> n")
    case False
    then have "n = 0" by simp
    then show ?thesis by simp
  next
    case True
    let ?F = "foldl (overlap_step self) cs [1..<n]"
    have step: "foldl (overlap_step self) cs [1..<Suc n] = overlap_step self ?F n"
      using True by simp
    have nlt: "n < length cs" using Suc.prems by simp
    show ?thesis
    proof (cases "j = n")
      case False
      then have "overlap_step self ?F n ! j = ?F ! j" by (rule overlap_step_other)
      then show ?thesis using Suc.IH Suc.prems by (simp add: step)
    next
      case jn: True
      have same: "content (?F ! n) = content (cs ! n)"
        using nlt by (intro overlap_fold_content) simp_all
      have nF: "n < length ?F" using nlt by (simp add: overlap_fold_length)
      show ?thesis
      proof (cases "content (overlap_step self ?F n ! n) = content (?F ! n)")
        case True
        then have "content (foldl (overlap_step self) cs [1..<Suc n] ! j) = content (cs ! j)"
          by (simp only: step jn same)
        then show ?thesis by blast
      next
        case False
        let ?g = "get_overlap_text self (content (?F ! (n - 1)))"
        have g: "?g \<noteq> []" and c: "content (overlap_step self ?F n ! n) = ?g @ [NL, NL] @ content (?F ! n)"
          using False overlap_step_at[OF nF, of self] by (auto split: if_splits)
        obtain ov where "?g = ''[...] '' @ ov" using get_overlap_text_shape[OF g] by blast
        then have "content (overlap_step self ?F n ! n) = ''[...] '' @ ov @ [NL, NL] @ content (cs ! n)"
          using c same by simp
        then have "content (foldl (overlap_step self) cs [1..<Suc n] ! j) =
                     ''[...] '' @ ov @ [NL, NL] @ content (cs ! j)"
          by (simp only: step jn)
        then show ?thesis by blast
      qed
    qed
  qed
qed

lemma apply_overlap_shape:
  assumes "j < length cs"
  shows "content (apply_overlap self cs ! j) = content (cs ! j) \<or>
         (\<exists>ov. content (apply_overlap self cs ! j) =
                 ''[...] '' @ ov @ [NL, NL] @ content (cs ! j))"
  using overlap_fold_shape[of "length cs" cs j self] assms
  by (simp add: apply_overlap_def)

lemma number_chunks_content:
  assumes "c \<in> set (number_chunks md n (filter (keeps self) ps))"
  shows "\<exists>x. content c = strip x \<and> min_chunk_size self \<le> int (length (strip x))"
proof -
  obtain i h x t where "(i, h, x, t) \<in> set (enumerate n (filter (keeps self) ps))"
      and c: "c = mk_chunk md (i, h, x, t)"
    using assms by (auto simp: number_chunks_def)
  then have "(h, x, t) \<in> set (filter (keeps self) ps)"
    by (metis enumerate_eq_zip set_zip_rightD)
  then have "keeps self (h, x, t)" by simp
  then show ?thesis using c by (auto simp: keeps_def mk_chunk_def)
qed

text \<open>
  Claim C7. For every input and configuration, every chunk returned by \<open>chunk_document\<close>
  has a trimmed content of at least \<open>min_chunk_size\<close> characters, also after the overlap
  stage has prepended a fragment to it (undersized pieces are dropped, never merged).
\<close>

theorem chunk_document_min_size:
  "\<forall>c \<in> set (chunk_document self doc md).
     min_chunk_size self \<le> int (length (strip (content c)))"
proof
  fix c assume cin: "c \<in> set (chunk_document self doc md)"
  let ?md = "case md of None \<Rightarrow> Map.empty | Some m \<Rightarrow> m"
  let ?cs = "number_chunks ?md 0 (filter (keeps self) (all_pieces self doc))"
  have "c \<in> set (apply_overlap self ?cs)" using cin by (simp add: chunk_document_eq)
  then obtain j where j: "j < length ?cs" and c: "c = apply_overlap self ?cs ! j"
    by (auto simp: in_set_conv_nth apply_overlap_length)
  have "?cs ! j \<in> set ?cs" using j by simp
  then obtain x where x: "content (?cs ! j) = strip x"
      and m: "min_chunk_size self \<le> int (length (strip x))"
    using number_chunks_content by blast
  from apply_overlap_shape[OF j, of self]
  show "min_chunk_size self \<le> int (length (strip (content c)))"
  proof
    assume "content (apply_overlap self ?cs ! j) = content (?cs ! j)"
    then show ?thesis using c x m by (simp add: strip_strip)
  next
    assume "\<exists>ov. content (apply_overlap self ?cs ! j) =
                   ''[...] '' @ ov @ [NL, NL] @ content (?cs ! j)"
    then obtain ov where "content c = CHR ''['' # (''...] '' @ ov @ [NL, NL]) @ strip x"
      using c x by auto
    moreover have "length (strip x) \<le> length (strip (CHR ''['' # (''...] '' @ ov @ [NL, NL]) @ strip x))"
      by (rule strip_with_prefix) (simp add: isspace_def)
    ultimately show ?thesis using m by simp
  qed
qed

lemma ex_small_eval:
  "map content (chunk_document ex_small ex_two_paragraphs (None :: (string \<rightharpoonup> string) option)) =
     [''aaa bbb ccc'', ''[...] ccc'' @ [NL, NL] @ ''ddd eee fff'']"
  by code_simp

theorem chunk_document_min_size_witness:
  "last (chunk_document ex_small ex_two_paragraphs (None :: (string \<rightharpoonup> string) option))
     \<in> set (chunk_document ex_small ex_two_paragraphs None) \<and>
   content (last (chunk_document ex_small ex_two_paragraphs (None :: (string \<rightharpoonup> string) option)))
     = ''[...] ccc'' @ [NL, NL] @ ''ddd eee fff'' \<and>
   min_chunk_size ex_small \<le> int (length (strip (content
     (last (chunk_document ex_small ex_two_paragraphs (None :: (string \<rightharpoonup> string) option))))))"
proof -
  let ?r = "chunk_document ex_small ex_two_paragraphs (None :: (string \<rightharpoonup> string) option)"
  have ne: "?r \<noteq> []" using ex_small_eval by auto
  then have mem: "last ?r \<in> set ?r" by simp
  have "content (last ?r) = last (map content ?r)" using ne by (simp add: last_map)
  then have c: "content (last ?r) = ''[...] ccc'' @ [NL, NL] @ ''ddd eee fff''"
    by (simp add: ex_small_eval)
  from chunk_document_min_size [of ex_small ex_two_paragraphs None] mem c
  show ?thesis by blast
qed

section \<open>Properties of the size-bounded text splitter\<close>

lemma split_ws_acc_words:
  "\<forall>c \<in> set cur. \<not> isspace c \<Longrightarrow>
   \<forall>w \<in> set (split_ws_acc cur s). w \<noteq> [] \<and> (\<forall>c \<in> set w. \<not> isspace c)"
proof (induction s arbitrary: cur)
  case Nil
  then show ?case by simp
next
  case (Cons a s)
  show ?case
  proof (cases "isspace a")
    case True
    have ih: "\<forall>w \<in> set (split_ws_acc [] s). w \<noteq> [] \<and> (\<forall>c \<in> set w. \<not> isspace c)"
      by (rule Cons.IH) simp
    show ?thesis
    proof (cases "cur = []")
      case True
      then show ?thesis using \<open>isspace a\<close> ih by simp
    next
      case False
      then have "split_ws_acc cur (a # s) = cur # split_ws_acc [] s"
        using \<open>isspace a\<close> by simp
      then show ?thesis using False ih Cons.prems by simp
    qed
  next
    case False
    have "\<forall>c \<in> set (cur @ [a]). \<not> isspace c" using False Cons.prems by simp
    then have "\<forall>w \<in> set (split_ws_acc (cur @ [a]) s). w \<noteq> [] \<and> (\<forall>c \<in> set w. \<not> isspace c)"
      by (rule Cons.IH)
    then show ?thesis using False by simp
  qed
qed

lemma split_ws_words:
  "w \<in> set (split_ws s) \<Longrightarrow> w \<noteq> [] \<and> (\<forall>c \<in> set w. \<not> isspace c)"
  using split_ws_acc_words[of "[]" s] by (simp add: split_ws_def)

lemma word_step_ok:
  assumes "state_ok self st" "w \<noteq> []" "\<forall>c \<in> set w. \<not> isspace c"
  shows "state_ok self (word_step self st w)"
proof -
  obtain chunks cur where st: "st = (chunks, cur)" by (cases st) auto
  have w: "piece_ok self w" using assms by (simp add: piece_ok_def)
  show ?thesis using assms(1) w
    by (auto simp: st word_step_def state_ok_def piece_ok_def)
qed

lemma word_fold_ok:
  "state_ok self st \<Longrightarrow> \<forall>w \<in> set ws. w \<noteq> [] \<and> (\<forall>c \<in> set w. \<not> isspace c) \<Longrightarrow>
   state_ok self (foldl (word_step self) st ws)"
  by (induction ws arbitrary: st) (simp_all add: word_step_ok)

lemma sentence_step_ok:
  assumes "state_ok self st"
  shows "state_ok self (sentence_step self st s)"
proof -
  obtain chunks cur where st: "st = (chunks, cur)" by (cases st) auto
  let ?chunks = "if cur \<noteq> [] then chunks @ [cur] else chunks"
  have flushed: "state_ok self (?chunks, [])"
    using assms by (auto simp: st state_ok_def)
  have words: "state_ok self (foldl (word_step self) (?chunks, []) (split_ws s))"
    using flushed split_ws_words by (intro word_fold_ok) auto
  show ?thesis
  proof (cases "int (length (cur @ (if cur \<noteq> [] then '' '' else []) @ s)) \<le> chunk_size self")
    case True
    then show ?thesis using assms
      by (simp add: st sentence_step_def state_ok_def piece_ok_def Let_def)
  next
    case False
    show ?thesis
    proof (cases "int (length s) > chunk_size self")
      case True
      then show ?thesis using False words
        by (simp add: st sentence_step_def Let_def)
    next
      case small: False
      then show ?thesis using False flushed
        by (auto simp: st sentence_step_def state_ok_def piece_ok_def Let_def)
    qed
  qed
qed

lemma sentence_fold_ok:
  "state_ok self st \<Longrightarrow> state_ok self (foldl (sentence_step self) st ss)"
  by (induction ss arbitrary: st) (simp_all add: sentence_step_ok)

lemma split_by_sentences_ok:
  "p \<in> set (split_by_sentences self t) \<Longrightarrow> piece_ok self p"
proof -
  assume p: "p \<in> set (split_by_sentences self t)"
  let ?fin = "foldl (sentence_step self) ([], []) (sentence_endings_split [] False t)"
  have "state_ok self ([], [])" by (simp add: state_ok_def)
  then have ok: "state_ok self ?fin" by (rule sentence_fold_ok)
  obtain chunks cur where f: "?fin = (chunks, cur)" by (cases ?fin) auto
  show ?thesis using p ok
    by (auto simp: split_by_sentences_def f state_ok_def split: if_splits)
qed

lemma paragraph_step_ok:
  assumes "state_ok self st"
  shows "state_ok self (paragraph_step self st para0)"
proof -
  obtain chunks cur where st: "st = (chunks, cur)" by (cases st) auto
  let ?para = "strip para0"
  let ?chunks = "if cur \<noteq> [] then chunks @ [cur] else chunks"
  let ?sc = "split_by_sentences self ?para"
  have flushed: "\<forall>p \<in> set ?chunks. piece_ok self p"
    using assms by (auto simp: st state_ok_def)
  have sc: "state_ok self (?chunks @ butlast ?sc, (if ?sc \<noteq> [] then last ?sc else []))"
    using flushed split_by_sentences_ok[of _ self ?para]
    by (auto simp: state_ok_def dest: in_set_butlastD)
  show ?thesis
  proof (cases "?para = []")
    case True
    then show ?thesis using assms by (simp add: st paragraph_step_def)
  next
    case ne: False
    show ?thesis
    proof (cases "int (length (cur @ (if cur \<noteq> [] then [NL, NL] else []) @ ?para)) \<le> chunk_size self")
      case True
      then show ?thesis using assms ne
        by (simp add: st paragraph_step_def state_ok_def piece_ok_def Let_def)
    next
      case False
      show ?thesis
      proof (cases "int (length ?para) > chunk_size self")
        case True
        then show ?thesis using False ne sc
          by (simp add: st paragraph_step_def Let_def)
      next
        case small: False
        then show ?thesis using False ne flushed
          by (auto simp: st paragraph_step_def state_ok_def piece_ok_def Let_def)
      qed
    qed
  qed
qed

lemma paragraph_fold_ok:
  "state_ok self st \<Longrightarrow> state_ok self (foldl (paragraph_step self) st ps)"
  by (induction ps arbitrary: st) (simp_all add: paragraph_step_ok)

lemma chunk_text_ok:
  "p \<in> set (chunk_text self t) \<Longrightarrow> piece_ok self p"
proof -
  assume p: "p \<in> set (chunk_text self t)"
  let ?fin = "foldl (paragraph_step self) ([], []) (split_paragraphs t)"
  have "state_ok self ([], [])" by (simp add: state_ok_def)
  then have ok: "state_ok self ?fin" by (rule paragraph_fold_ok)
  obtain chunks cur where f: "?fin = (chunks, cur)" by (cases ?fin) auto
  show ?thesis
  proof (cases "int (length t) \<le> chunk_size self")
    case True
    then show ?thesis using p by (auto simp: chunk_text_def piece_ok_def split: if_splits)
  next
    case False
    then show ?thesis using p ok
      by (auto simp: chunk_text_def f state_ok_def split: if_splits)
  qed
qed

text \<open>
  Claim C8. For every text block and target size, every piece produced by \<open>chunk_text\<close>
  (before overlap) has at most \<open>chunk_size\<close> characters, except a piece that is a single
  word (non-empty, without whitespace) longer than the target, emitted alone.
\<close>

theorem chunk_text_size_bound:
  "\<forall>p \<in> set (chunk_text self t).
     int (length p) \<le> chunk_size self \<or> (p \<noteq> [] \<and> (\<forall>c \<in> set p. \<not> isspace c))"
  using chunk_text_ok[of _ self t] by (simp add: piece_ok_def)

lemma ex_long_word_eval:
  "chunk_text ex_size10 ex_long_word = [''aaa bbb'', ''ccc.'', ''dddddddddddddd'', ''ee'']"
  by code_simp

theorem chunk_text_size_bound_witness:
  "''dddddddddddddd'' \<in> set (chunk_text ex_size10 ex_long_word) \<and>
   \<not> int (length ''dddddddddddddd'') \<le> chunk_size ex_size10 \<and>
   filter isspace ''dddddddddddddd'' = [] \<and>
   ''aaa bbb'' \<in> set (chunk_text ex_size10 ex_long_word) \<and>
   int (length ''aaa bbb'') \<le> chunk_size ex_size10"
proof -
  have mem: "''dddddddddddddd'' \<in> set (chunk_text ex_size10 ex_long_word)"
    by (simp add: ex_long_word_eval)
  have big: "\<not> int (length ''dddddddddddddd'') \<le> chunk_size ex_size10"
    by (simp add: ex_size10_def default_chunker_def)
  have small: "int (length ''aaa bbb'') \<le> chunk_size ex_size10"
    by (simp add: ex_size10_def default_chunker_def)
  from chunk_text_size_bound [of ex_size10 ex_long_word] mem big
  have "\<forall>c \<in> set ''dddddddddddddd''. \<not> isspace c" by blast
  then have "filter isspace ''dddddddddddddd'' = []" by (simp only: filter_False)
  with mem big small show ?thesis by (simp add: ex_long_word_eval)
qed

section \<open>The short document under a heading\<close>

lemma ex_heading_sections:
  "split_by_headings ex_heading_doc = [\<lparr>heading = Some ''A'', section_content = ex_heading_doc\<rparr>]"
  by code_simp

lemma ex_heading_no_table: "search table_match ex_heading_doc = False"
  by code_simp

lemma ex_heading_strip: "strip ex_heading_doc = ex_heading_doc"
  by code_simp

lemma ex_heading_length: "length ex_heading_doc = 16"
  by code_simp

lemma ex_heading_pieces:
  assumes "chunk_size self = 1000"
  shows "all_pieces self ex_heading_doc = [(Some ''A'', ex_heading_doc, ''text'')]"
proof -
  have ne: "ex_heading_doc \<noteq> []" using ex_heading_length by auto
  have "chunk_text self ex_heading_doc = [ex_heading_doc]"
    using assms ne by (simp add: chunk_text_def ex_heading_length ex_heading_strip)
  then show ?thesis
    by (simp add: all_pieces_def section_pieces_def chunk_section_def
          ex_heading_sections ex_heading_no_table)
qed

text \<open>
  Claim C5, as stated, fails: with every setting at its default the minimum chunk size is
  100, the only piece has 16 characters, and \<open>chunk_document\<close> returns no chunk.
\<close>

theorem short_heading_doc_default: 
  "chunk_document default_chunker ex_heading_doc (None :: (string \<rightharpoonup> string) option) = []"
proof -
  have "chunk_size default_chunker = 1000" by (simp add: default_chunker_def)
  then have "all_pieces default_chunker ex_heading_doc = [(Some ''A'', ex_heading_doc, ''text'')]"
    by (rule ex_heading_pieces)
  then show ?thesis
    by (simp add: chunk_document_eq keeps_def ex_heading_strip ex_heading_length
          default_chunker_def number_chunks_def apply_overlap_def)
qed

text \<open>
  Claim C5, amended. On the input \<open># A\<close>, blank line, \<open>Short text.\<close> with target
  chunk size 1000 and a minimum chunk size of at most 16 (other settings at their
  defaults), \<open>chunk_document\<close> returns exactly one chunk, of type \<open>text\<close>, with heading
  context \<open>A\<close>, index 0 and the whole input as content.
\<close>

theorem short_heading_doc_small_min:
  "m \<le> 16 \<Longrightarrow>
   chunk_document (default_chunker\<lparr>min_chunk_size := m\<rparr>) ex_heading_doc md =
     [\<lparr>content = ex_heading_doc, chunk_index = 0,
       metadata = (case md of None \<Rightarrow> Map.empty | Some d \<Rightarrow> d),
       heading_context = Some ''A'', chunk_type = ''text''\<rparr>]"
proof -
  assume m: "m \<le> 16"
  let ?self = "default_chunker\<lparr>min_chunk_size := m\<rparr>"
  have "chunk_size ?self = 1000" by (simp add: default_chunker_def)
  then have "all_pieces ?self ex_heading_doc = [(Some ''A'', ex_heading_doc, ''text'')]"
    by (rule ex_heading_pieces)
  then show ?thesis using m
    by (simp add: chunk_document_eq keeps_def ex_heading_strip ex_heading_length
          number_chunks_def mk_chunk_def apply_overlap_def)
qed

theorem short_heading_doc_small_min_witness:
  "(16::int) \<le> 16 \<and>
   chunk_document (default_chunker\<lparr>min_chunk_size := 16\<rparr>) ex_heading_doc
       (None :: (string \<rightharpoonup> string) option) =
     [\<lparr>content = ex_heading_doc, chunk_index = 0, metadata = Map.empty,
       heading_context = Some ''A'', chunk_type = ''text''\<rparr>]"
  using short_heading_doc_small_min [of 16 None] by simp

section \<open>Overlap fragments on concrete inputs\<close>

text \<open>
  Claim C3 at a failing input. When the last \<open>chunk_overlap\<close> characters of the
  predecessor contain no space, \<open>find\<close> returns -1 and the fragment is the raw tail: with
  overlap 3 the fragment for \<open>hello world\<close> is \<open>rld\<close>, and with overlap 5 the chunk after
  \<open>aaa bbbbbbb\<close> starts with \<open>[...] bbbbb\<close>, in the middle of the word \<open>bbbbbbb\<close>.
\<close>

theorem overlap_fragment_mid_word:
  "get_overlap_text ex_overlap3 ''hello world'' = ''[...] rld'' \<and>
   map content (chunk_document ex_small ex_mid_word_doc (None :: (string \<rightharpoonup> string) option)) =
     [''aaa bbbbbbb'', ''[...] bbbbb'' @ [NL, NL] @ ''ddd eee fff'']"
  by code_simp

text \<open>
  Claim C1 at a failing input. The loop of \<open>_apply_overlap\<close> reads \<open>chunks[i - 1]\<close>
  after it has been given its own prefix. Before overlap the chunks are \<open>aaa bbb ccc\<close>,
  \<open>xy\<close> and \<open>uvw uvw uvw\<close>; the original \<open>xy\<close> is not longer than the overlap 5 and
  gives no fragment, yet the third chunk receives the fragment \<open>c\<close>, blank line, \<open>xy\<close>,
  cut from the second chunk's content after stitching (its \<open>c\<close> comes from the first chunk).
\<close>

theorem overlap_cascades:
  "map content (chunk_document (ex_cascade\<lparr>chunk_overlap := 0\<rparr>) ex_cascade_doc
       (None :: (string \<rightharpoonup> string) option)) =
     [''aaa bbb ccc'', ''xy'', ''uvw uvw uvw''] \<and>
   get_overlap_text ex_cascade ''xy'' = [] \<and>
   map content (chunk_document ex_cascade ex_cascade_doc (None :: (string \<rightharpoonup> string) option)) =
     [''aaa bbb ccc'',
      ''[...] ccc'' @ [NL, NL] @ ''xy'',
      ''[...] c'' @ [NL, NL] @ ''xy'' @ [NL, NL] @ ''uvw uvw uvw'']"
  by code_simp

section \<open>Table chunks\<close>

lemma table_row_shape:
  assumes "0 < table_row s"
  shows "\<exists>mid. take (table_row s) s = CHR ''|'' # mid @ [CHR ''|'', NL]"
proof -
  obtain c rest where s: "s = c # rest"
    using assms by (cases s) (auto simp: table_row_def)
  let ?line = "takeWhile (\<lambda>c. c \<noteq> NL) rest"
  have c: "c = CHR ''|''" and len: "length ?line < length rest"
    and two: "2 \<le> length ?line" and lst: "last ?line = CHR ''|''"
    and n: "table_row s = length ?line + 2"
    using assms by (auto simp: table_row_def s Let_def split: if_splits)
  let ?d = "dropWhile (\<lambda>c. c \<noteq> NL) rest"
  have rest: "rest = ?line @ ?d" by simp
  have dne: "?d \<noteq> []" using len rest by (metis append_Nil2 less_irrefl)
  then have "\<not> hd ?d \<noteq> NL" by (rule hd_dropWhile)
  then obtain r where d: "?d = NL # r" using dne by (cases ?d) auto
  have "take (length ?line + 1) rest = take (length ?line + 1) (?line @ NL # r)"
    using rest d by simp
  then have tk: "take (length ?line + 1) rest = ?line @ [NL]" by simp
  have lne: "?line \<noteq> []" using two by auto
  then have "?line = butlast ?line @ [CHR ''|'']" using lst by (metis append_butlast_last_id)
  then have t2: "?line @ [NL] = butlast ?line @ [CHR ''|'', NL]"
    by (metis append.assoc append_Cons append_Nil)
  have "table_row s = Suc (length ?line + 1)" using n by simp
  then have "take (table_row s) s = take (Suc (length ?line + 1)) (c # rest)"
    by (simp only: s)
  also have "\<dots> = c # take (length ?line + 1) rest" by (rule take_Suc_Cons)
  also have "\<dots> = CHR ''|'' # butlast ?line @ [CHR ''|'', NL]"
    by (simp only: tk t2 c)
  finally show ?thesis by blast
qed

lemma table_match_unfold:
  "table_match s =
     (if table_row s = 0 then 0 else table_row s + table_match (drop (table_row s) s))"
  by (rule table_match.simps)

lemma table_match_shape:
  "0 < table_match s \<Longrightarrow> \<exists>pre. take (table_match s) s = CHR ''|'' # pre @ [CHR ''|'', NL]"
proof (induction s rule: table_match.induct)
  case (1 s)
  let ?n = "table_row s"
  have pos: "0 < ?n" using "1.prems" by (subst (asm) table_match_unfold) (auto split: if_splits)
  let ?k = "table_match (drop ?n s)"
  have tm: "table_match s = ?n + ?k" using pos by (subst table_match_unfold) simp
  obtain mid where row: "take ?n s = CHR ''|'' # mid @ [CHR ''|'', NL]"
    using table_row_shape[OF pos] by blast
  have split: "take (?n + ?k) s = take ?n s @ take ?k (drop ?n s)" by (rule take_add)
  show ?case
  proof (cases "?k = 0")
    case True
    then show ?thesis using row tm by auto
  next
    case False
    then obtain pre where "take ?k (drop ?n s) = CHR ''|'' # pre @ [CHR ''|'', NL]"
      using "1.IH" pos by auto
    then have "take (table_match s) s =
                 CHR ''|'' # (mid @ [CHR ''|'', NL] @ CHR ''|'' # pre) @ [CHR ''|'', NL]"
      using row split tm by simp
    then show ?thesis by blast
  qed
qed

lemma finditer_from_groups:
  "mt \<in> set (finditer_from m pos s) \<Longrightarrow> \<exists>t. 0 < m t \<and> snd (snd mt) = take (m t) t"
proof (induction m pos s rule: finditer_from.induct)
  case (1 m pos s)
  show ?case
  proof (cases "s = []")
    case True
    then show ?thesis using "1.prems" by (subst (asm) finditer_from.simps) simp
  next
    case ne: False
    show ?thesis
    proof (cases "m s = 0")
      case True
      then have "mt \<in> set (finditer_from m (Suc pos) (tl s))"
        using "1.prems" ne by (subst (asm) finditer_from.simps) simp
      then show ?thesis using "1.IH"(1) ne True by blast
    next
      case False
      then have "mt = (pos, pos + m s, take (m s) s) \<or>
                 mt \<in> set (finditer_from m (pos + m s) (drop (m s) s))"
        using "1.prems" ne by (subst (asm) finditer_from.simps) auto
      then show ?thesis
      proof
        assume "mt = (pos, pos + m s, take (m s) s)"
        then show ?thesis using False by auto
      next
        assume "mt \<in> set (finditer_from m (pos + m s) (drop (m s) s))"
        then show ?thesis using "1.IH"(2) ne False by blast
      qed
    qed
  qed
qed

lemma table_region_shape:
  assumes "mt \<in> set (finditer table_match s)"
  shows "\<exists>pre. snd (snd mt) = CHR ''|'' # pre @ [CHR ''|'', NL]"
proof -
  obtain t where "0 < table_match t" and "snd (snd mt) = take (table_match t) t"
    using finditer_from_groups assms unfolding finditer_def by blast
  then show ?thesis using table_match_shape[of t] by simp
qed

lemma strip_table_region:
  "strip (CHR ''|'' # pre @ [CHR ''|'', NL]) = CHR ''|'' # pre @ [CHR ''|'']"
proof -
  have bar: "\<not> isspace CHR ''|''" and nl: "isspace NL" by (simp_all add: isspace_def)
  have "rev (CHR ''|'' # pre @ [CHR ''|'', NL]) = NL # CHR ''|'' # rev pre @ [CHR ''|'']"
    by simp
  then have "dropWhile isspace (rev (CHR ''|'' # pre @ [CHR ''|'', NL])) =
               CHR ''|'' # rev pre @ [CHR ''|'']"
    using bar nl by simp
  then have "rev (dropWhile isspace (rev (CHR ''|'' # pre @ [CHR ''|'', NL]))) =
               CHR ''|'' # pre @ [CHR ''|'']"
    by simp
  moreover have "dropWhile isspace (CHR ''|'' # pre @ [CHR ''|'', NL]) =
                   CHR ''|'' # pre @ [CHR ''|'', NL]"
    using bar by simp
  ultimately show ?thesis by (simp only: strip_def)
qed

lemma around_fold_matches:
  "(x, True) \<in> set (fst (foldl (around_step c) st ms)) \<Longrightarrow>
   (x, True) \<in> set (fst st) \<or> x \<in> (\<lambda>mt. snd (snd mt)) ` set ms"
proof (induction ms arbitrary: st)
  case Nil
  then show ?case by simp
next
  case (Cons mt ms)
  obtain result last_end where st: "st = (result, last_end)" by (cases st) auto
  obtain a b g where mt: "mt = (a, b, g)" by (cases mt) auto
  from Cons.IH[of "around_step c st mt"] Cons.prems
  have "(x, True) \<in> set (fst (around_step c st mt)) \<or> x \<in> (\<lambda>mt. snd (snd mt)) ` set ms"
    by simp
  then show ?case
  proof
    assume "(x, True) \<in> set (fst (around_step c st mt))"
    then have "(x, True) \<in> set result \<or> x = g"
      by (auto simp: around_step_def st mt Let_def split: if_splits)
    then show ?thesis by (auto simp: st mt)
  next
    assume "x \<in> (\<lambda>mt. snd (snd mt)) ` set ms"
    then show ?thesis by auto
  qed
qed

lemma split_around_pattern_matches:
  assumes "(x, True) \<in> set (split_around_pattern c m)"
  shows "x \<in> (\<lambda>mt. snd (snd mt)) ` set (finditer m c)"
proof -
  let ?fin = "foldl (around_step c) ([], 0) (finditer m c)"
  obtain result last_end where f: "?fin = (result, last_end)" by (cases ?fin) auto
  have "(x, True) \<in> set (fst ?fin)"
    using assms by (auto simp: split_around_pattern_def f split: if_splits)
  then show ?thesis using around_fold_matches[of x c "([], 0)" "finditer m c"] by simp
qed

lemma chunk_section_table:
  assumes "(x, ''table'') \<in> set (chunk_section self c h pb)"
  shows "(x, True) \<in> set (split_around_pattern c table_match)"
proof (cases "preserve_tables self \<and> search table_match c")
  case True
  then obtain part is_match where pm: "(part, is_match) \<in> set (split_around_pattern c table_match)"
    and x: "(x, ''table'') \<in> set (if is_match then [(part, ''table'')]
                                     else map (\<lambda>p. (p, ''text'')) (chunk_text self part))"
    using assms by (auto simp: chunk_section_def)
  show ?thesis
  proof (cases is_match)
    case True
    then show ?thesis using pm x by simp
  next
    case False
    then show ?thesis using x by auto
  qed
next
  case False
  then have "(x, ''table'') \<in> set (map (\<lambda>p. (p, ''text'')) (chunk_text self c))"
    using assms by (auto simp: chunk_section_def)
  then show ?thesis by auto
qed

lemma all_pieces_section:
  assumes "(h, x, t) \<in> set (all_pieces self doc)"
  shows "\<exists>sec \<in> set (split_by_headings doc).
           (x, t) \<in> set (chunk_section self (section_content sec) (heading sec)
                             (extract_protected_blocks self doc))"
  using assms by (auto simp: all_pieces_def section_pieces_def)

lemma number_chunks_member:
  assumes "c \<in> set (number_chunks md n ps)"
  shows "\<exists>h x t. (h, x, t) \<in> set ps \<and> content c = strip x \<and> chunk_type c = t"
proof -
  obtain i h x t where "(i, h, x, t) \<in> set (enumerate n ps)"
      and c: "c = mk_chunk md (i, h, x, t)"
    using assms by (auto simp: number_chunks_def)
  then have "(h, x, t) \<in> set ps" by (metis enumerate_eq_zip set_zip_rightD)
  then show ?thesis using c by (auto simp: mk_chunk_def)
qed

lemma apply_overlap_type_nth:
  assumes "j < length cs"
  shows "chunk_type (apply_overlap self cs ! j) = chunk_type (cs ! j)"
proof -
  have "j < length (apply_overlap self cs)" using assms by (simp add: apply_overlap_length)
  then have "chunk_type (apply_overlap self cs ! j) = map chunk_type (apply_overlap self cs) ! j"
    by simp
  also have "\<dots> = map chunk_type cs ! j" by (simp only: apply_overlap_map)
  also have "\<dots> = chunk_type (cs ! j)" using assms by simp
  finally show ?thesis .
qed

lemma apply_overlap_table_member:
  assumes "c \<in> set (apply_overlap self cs)" "chunk_type c = ''table''"
  shows "\<exists>c0 \<in> set cs. chunk_type c0 = ''table'' \<and> content c = content c0"
proof -
  obtain j where j: "j < length cs" and c: "c = apply_overlap self cs ! j"
    using assms(1) by (auto simp: in_set_conv_nth apply_overlap_length)
  have ty: "chunk_type (cs ! j) = ''table''"
    using apply_overlap_type_nth[OF j, of self] c assms(2) by simp
  then have "chunk_type (cs ! j) \<noteq> ''text''" by simp
  then have "content (apply_overlap self cs ! j) = content (cs ! j)"
    using apply_overlap_content_kept[OF j, of self] by blast
  then have "content c = content (cs ! j)" using c by simp
  moreover have "cs ! j \<in> set cs" using j by simp
  ultimately show ?thesis using ty by blast
qed

lemma ex_table_eval:
  "map chunk_type (chunk_document ex_min1 ex_table_doc (None :: (string \<rightharpoonup> string) option)) =
     [''table''] \<and>
   map content (chunk_document ex_min1 ex_table_doc (None :: (string \<rightharpoonup> string) option)) =
     [''|a|b|'' @ [NL] @ ''|c|d|'']"
  by code_simp

lemma ex_table_sections:
  "split_by_headings ex_table_doc = [\<lparr>heading = None, section_content = ex_table_doc\<rparr>]"
  by code_simp

lemma ex_table_matches:
  "finditer table_match ex_table_doc = [(0, 12, ex_table_doc)]"
  by code_simp

text \<open>
  Every chunk is stored trimmed, and a table region always ends with a newline: for the
  two-row table below the only chunk has type \<open>table\<close> and its content is the region
  found by the scanner without the final newline.
\<close>

lemma table_chunk_not_identical:
  "map chunk_type (chunk_document ex_min1 ex_table_doc (None :: (string \<rightharpoonup> string) option)) =
     [''table''] \<and>
   map content (chunk_document ex_min1 ex_table_doc (None :: (string \<rightharpoonup> string) option)) =
     [''|a|b|'' @ [NL] @ ''|c|d|''] \<and>
   tables (extract_protected_blocks ex_min1 ex_table_doc) =
     [(0, 12, ''|a|b|'' @ [NL] @ ''|c|d|'' @ [NL])]"
  by code_simp

text \<open>
  What the section assembler does: every chunk of type \<open>table\<close> is the trimmed text of a
  match of the table pattern in the content of one section, not of a region of the
  protected-region scanner; the match is the chunk's content followed by one newline.
\<close>

lemma table_chunk_is_trimmed_region:
  "\<forall>c \<in> set (chunk_document self doc md).
     chunk_type c = ''table'' \<longrightarrow>
     (\<exists>sec \<in> set (split_by_headings doc).
        \<exists>mt \<in> set (finditer table_match (section_content sec)).
          content c = strip (snd (snd mt)) \<and> snd (snd mt) = content c @ [NL])"
proof (intro ballI impI)
  fix c assume cin: "c \<in> set (chunk_document self doc md)" and ty: "chunk_type c = ''table''"
  define ps where "ps = filter (keeps self) (all_pieces self doc)"
  define cs where "cs = number_chunks (case md of None \<Rightarrow> Map.empty | Some m \<Rightarrow> m) 0 ps"
  have "chunk_document self doc md = apply_overlap self cs"
    unfolding cs_def ps_def by (rule chunk_document_eq)
  then have "c \<in> set (apply_overlap self cs)" using cin by simp
  then obtain c0 where c0: "c0 \<in> set cs" and ty0: "chunk_type c0 = ''table''"
      and same: "content c = content c0"
    using ty apply_overlap_table_member by blast
  obtain h x t where p: "(h, x, t) \<in> set ps"
      and cx: "content c0 = strip x" and ct: "chunk_type c0 = t"
    using c0 number_chunks_member unfolding cs_def by blast
  have "(h, x, t) \<in> set (all_pieces self doc)" using p unfolding ps_def by simp
  then have "(h, x, ''table'') \<in> set (all_pieces self doc)" using ct ty0 by simp
  then obtain sec where sec: "sec \<in> set (split_by_headings doc)"
      and xs: "(x, ''table'') \<in> set (chunk_section self (section_content sec) (heading sec)
                                        (extract_protected_blocks self doc))"
    using all_pieces_section by blast
  have "(x, True) \<in> set (split_around_pattern (section_content sec) table_match)"
    using xs by (rule chunk_section_table)
  then obtain mt where mt: "mt \<in> set (finditer table_match (section_content sec))"
      and xm: "x = snd (snd mt)"
    using split_around_pattern_matches by blast
  obtain pre where shape: "snd (snd mt) = CHR ''|'' # pre @ [CHR ''|'', NL]"
    using table_region_shape[OF mt] by blast
  have a: "content c = strip (snd (snd mt))" using same cx xm by simp
  have "strip (snd (snd mt)) = CHR ''|'' # pre @ [CHR ''|'']"
    by (simp only: shape strip_table_region)
  then have b: "snd (snd mt) = content c @ [NL]" using a shape by simp
  show "\<exists>sec \<in> set (split_by_headings doc).
        \<exists>mt \<in> set (finditer table_match (section_content sec)).
          content c = strip (snd (snd mt)) \<and> snd (snd mt) = content c @ [NL]"
    using sec mt a b by blast
qed

lemma table_chunk_is_trimmed_region_example:
  "hd (chunk_document ex_min1 ex_table_doc (None :: (string \<rightharpoonup> string) option))
     \<in> set (chunk_document ex_min1 ex_table_doc None) \<and>
   chunk_type (hd (chunk_document ex_min1 ex_table_doc (None :: (string \<rightharpoonup> string) option)))
     = ''table'' \<and>
   content (hd (chunk_document ex_min1 ex_table_doc (None :: (string \<rightharpoonup> string) option)))
     = strip ex_table_doc \<and>
   ex_table_doc =
     content (hd (chunk_document ex_min1 ex_table_doc (None :: (string \<rightharpoonup> string) option)))
       @ [NL]"
proof -
  define r where "r = chunk_document ex_min1 ex_table_doc (None :: (string \<rightharpoonup> string) option)"
  have ne: "r \<noteq> []" using ex_table_eval unfolding r_def by auto
  then have mem: "hd r \<in> set r" by simp
  have "chunk_type (hd r) = hd (map chunk_type r)" using ne by (simp add: hd_map)
  then have ty: "chunk_type (hd r) = ''table''" using ex_table_eval unfolding r_def by simp
  from table_chunk_is_trimmed_region [of ex_min1 ex_table_doc None] mem ty
  obtain sec mt where "sec \<in> set (split_by_headings ex_table_doc)"
      and "mt \<in> set (finditer table_match (section_content sec))"
      and c: "content (hd r) = strip (snd (snd mt))" "snd (snd mt) = content (hd r) @ [NL]"
    unfolding r_def by blast
  then have "mt = (0, 12, ex_table_doc)"
    by (simp add: ex_table_sections ex_table_matches)
  then have "content (hd r) = strip ex_table_doc" "ex_table_doc = content (hd r) @ [NL]"
    using c by simp_all
  then show ?thesis using mem ty unfolding r_def by simp
qed

text \<open>
  Claim C2 at a failing input. \<open>_chunk_section\<close> never reads the protected blocks it is
  given: it matches the table pattern again in the section content, which is joined without
  the newline that ends its last line. On the two-row table directly followed by a heading
  (minimum chunk size 1) the scanner locates one region, the whole table, but the section
  content is the table without its final newline, only the first row matches, and the table
  is split: the chunk of type \<open>table\<close> is \<open>|a|\<close>, the second row becomes a text chunk.
  The table chunk is neither the scanner's region nor its trimmed text.
\<close>

theorem table_chunk_partial_region:
  "tables (extract_protected_blocks ex_min1 ex_table_heading_doc) =
     [(0, 8, ''|a|'' @ [NL] @ ''|b|'' @ [NL])] \<and>
   strip (''|a|'' @ [NL] @ ''|b|'' @ [NL]) = ''|a|'' @ [NL] @ ''|b|'' \<and>
   map section_content (split_by_headings ex_table_heading_doc) =
     [''|a|'' @ [NL] @ ''|b|'', ''# H''] \<and>
   map chunk_type (chunk_document ex_min1 ex_table_heading_doc
       (None :: (string \<rightharpoonup> string) option)) = [''table'', ''text'', ''text''] \<and>
   map content (chunk_document ex_min1 ex_table_heading_doc
       (None :: (string \<rightharpoonup> string) option)) = [''|a|'', ''|b|'', ''# H'']"
  by code_simp

section \<open>Degenerate configurations\<close>

lemma get_overlap_text_short:
  "int (length x) \<le> chunk_overlap self \<Longrightarrow> get_overlap_text self x = []"
  by (simp add: get_overlap_text_def)

lemma overlap_step_short:
  assumes "\<forall>c \<in> set cs. chunk_type c = ''text'' \<longrightarrow> int (length (content c)) \<le> chunk_overlap self"
    and "0 < i" "i < length cs"
  shows "overlap_step self cs i = cs"
proof (cases "chunk_type (cs ! (i - 1)) = ''text''")
  case True
  have "cs ! (i - 1) \<in> set cs" using assms(2,3) by simp
  then have "int (length (content (cs ! (i - 1)))) \<le> chunk_overlap self"
    using assms(1) True by blast
  then have "get_overlap_text self (content (cs ! (i - 1))) = []"
    by (rule get_overlap_text_short)
  then show ?thesis by (simp add: overlap_step_def Let_def)
next
  case False
  then show ?thesis by (simp add: overlap_step_def Let_def)
qed

lemma overlap_fold_short:
  assumes "\<forall>c \<in> set cs. chunk_type c = ''text'' \<longrightarrow> int (length (content c)) \<le> chunk_overlap self"
  shows "\<forall>j \<in> set js. 0 < j \<and> j < length cs \<Longrightarrow> foldl (overlap_step self) cs js = cs"
proof (induction js)
  case Nil
  show ?case by simp
next
  case (Cons j js)
  have "overlap_step self cs j = cs"
    using assms Cons.prems by (intro overlap_step_short) simp_all
  then show ?case using Cons by simp
qed

lemma apply_overlap_short:
  assumes "\<forall>c \<in> set cs. chunk_type c = ''text'' \<longrightarrow> int (length (content c)) \<le> chunk_overlap self"
  shows "apply_overlap self cs = cs"
proof -
  have "foldl (overlap_step self) cs [1..<length cs] = cs"
    using assms by (rule overlap_fold_short) simp
  then show ?thesis by (simp add: apply_overlap_def)
qed

lemma chunk_section_text:
  assumes "(x, ''text'') \<in> set (chunk_section self c h pb)"
  shows "\<exists>part. x \<in> set (chunk_text self part)"
proof (cases "preserve_tables self \<and> search table_match c")
  case True
  then obtain part is_match where
    x: "(x, ''text'') \<in> set (if is_match then [(part, ''table'')]
                               else map (\<lambda>p. (p, ''text'')) (chunk_text self part))"
    using assms by (auto simp: chunk_section_def)
  show ?thesis
  proof (cases is_match)
    case True
    then show ?thesis using x by simp
  next
    case False
    then have "x \<in> set (chunk_text self part)" using x by auto
    then show ?thesis by blast
  qed
next
  case False
  then have "(x, ''text'') \<in> set (map (\<lambda>p. (p, ''text'')) (chunk_text self c))"
    using assms by (auto simp: chunk_section_def)
  then have "x \<in> set (chunk_text self c)" by auto
  then show ?thesis by blast
qed

lemma text_piece_ok:
  assumes "(h, x, ''text'') \<in> set (all_pieces self doc)"
  shows "piece_ok self x"
proof -
  obtain sec where "sec \<in> set (split_by_headings doc)"
      and "(x, ''text'') \<in> set (chunk_section self (section_content sec) (heading sec)
                                     (extract_protected_blocks self doc))"
    using all_pieces_section[OF assms] by blast
  then obtain part where "x \<in> set (chunk_text self part)"
    using chunk_section_text by blast
  then show ?thesis by (rule chunk_text_ok)
qed

lemma length_strip_le: "length (strip s) \<le> length s"
proof -
  have "length (strip s) = length (dropWhile isspace (rev (dropWhile isspace s)))"
    by (simp add: strip_def)
  also have "\<dots> \<le> length (rev (dropWhile isspace s))" by (rule length_dropWhile_le)
  also have "\<dots> = length (dropWhile isspace s)" by simp
  also have "\<dots> \<le> length s" by (rule length_dropWhile_le)
  finally show ?thesis .
qed

lemma strip_word:
  assumes "s \<noteq> []" "\<forall>c \<in> set s. \<not> isspace c"
  shows "strip s = s"
  using assms by (intro strip_fixed) simp_all

lemma word_step_overlap_update:
  "word_step (self\<lparr>chunk_overlap := v\<rparr>) = word_step self"
  by (simp add: fun_eq_iff word_step_def)

lemma sentence_step_overlap_update:
  "sentence_step (self\<lparr>chunk_overlap := v\<rparr>) = sentence_step self"
  by (simp add: fun_eq_iff sentence_step_def word_step_overlap_update Let_def)

lemma split_by_sentences_overlap_update:
  "split_by_sentences (self\<lparr>chunk_overlap := v\<rparr>) = split_by_sentences self"
  by (simp add: fun_eq_iff split_by_sentences_def sentence_step_overlap_update)

lemma paragraph_step_overlap_update:
  "paragraph_step (self\<lparr>chunk_overlap := v\<rparr>) = paragraph_step self"
  by (simp add: fun_eq_iff paragraph_step_def split_by_sentences_overlap_update Let_def)

lemma chunk_text_overlap_update:
  "chunk_text (self\<lparr>chunk_overlap := v\<rparr>) = chunk_text self"
  by (simp add: fun_eq_iff chunk_text_def paragraph_step_overlap_update)

lemma section_pieces_overlap_update:
  "section_pieces (self\<lparr>chunk_overlap := v\<rparr>) pb = section_pieces self pb"
  by (simp add: fun_eq_iff section_pieces_def chunk_section_def chunk_text_overlap_update
        cong: if_cong)

lemma all_pieces_overlap_update:
  "all_pieces (self\<lparr>chunk_overlap := v\<rparr>) doc = all_pieces self doc"
  by (simp add: all_pieces_def section_pieces_overlap_update extract_protected_blocks_def)

lemma keeps_overlap_update: "keeps (self\<lparr>chunk_overlap := v\<rparr>) = keeps self"
  by (simp add: fun_eq_iff keeps_def)

lemma chunk_document_without_overlap:
  "chunk_document (self\<lparr>chunk_overlap := 0\<rparr>) doc md =
     number_chunks (case md of None \<Rightarrow> Map.empty | Some m \<Rightarrow> m) 0
       (filter (keeps self) (all_pieces self doc))"
  by (simp add: chunk_document_eq all_pieces_overlap_update keeps_overlap_update
        apply_overlap_def)

lemma kept_text_chunk:
  assumes "c \<in> set (number_chunks md n (filter (keeps self) (all_pieces self doc)))"
    and "chunk_type c = ''text''"
  shows "\<exists>x. content c = strip x \<and> piece_ok self x \<and>
             min_chunk_size self \<le> int (length (strip x))"
proof -
  obtain h x t where p: "(h, x, t) \<in> set (filter (keeps self) (all_pieces self doc))"
      and cx: "content c = strip x" and ct: "chunk_type c = t"
    using assms(1) number_chunks_member by blast
  have k: "keeps self (h, x, t)" using p by simp
  have "(h, x, ''text'') \<in> set (all_pieces self doc)" using p ct assms(2) by simp
  then have "piece_ok self x" by (rule text_piece_ok)
  then show ?thesis using cx k by (auto simp: keeps_def)
qed

text \<open>
  Claim C4, as stated, fails. With target size 50 and the default minimum 100 the filter is
  not disabled: \<open>Short text.\<close> yields no chunk, although it yields one chunk when the
  minimum is 0. With overlap 5 equal to the target size 5, overlap is not skipped: the
  oversized word \<open>abcdefgh\<close> is longer than the overlap and the next chunk receives the
  fragment \<open>defgh\<close>.
\<close>

theorem degenerate_config_counterexample:
  "chunk_size ex_big_min < min_chunk_size ex_big_min \<and>
   map content (chunk_document ex_big_min ''Short text.''
       (None :: (string \<rightharpoonup> string) option)) = [] \<and>
   map content (chunk_document (ex_big_min\<lparr>min_chunk_size := 0\<rparr>) ''Short text.''
       (None :: (string \<rightharpoonup> string) option)) = [''Short text.''] \<and>
   chunk_size ex_big_overlap \<le> chunk_overlap ex_big_overlap \<and>
   map content (chunk_document ex_big_overlap ''abcdefgh xy''
       (None :: (string \<rightharpoonup> string) option)) =
     [''abcdefgh'', ''[...] defgh'' @ [NL, NL] @ ''xy'']"
  by code_simp

text \<open>
  Claim C4, amended. A degenerate configuration raises no error, and:
  when the minimum chunk size is larger than the target chunk size the minimum-size filter
  stays in force, so that every returned chunk of type \<open>text\<close> is a single word without
  whitespace, at least \<open>min_chunk_size\<close> characters long, possibly behind an overlap prefix
  (ordinary text pieces are dropped);
  when overlap >= chunk size, overlap is skipped entirely (the result is the one obtained
  with overlap 0) unless some returned text chunk is a single word without whitespace that
  is longer than the overlap.
\<close>

theorem degenerate_config_behaviour:
  "(chunk_size self < min_chunk_size self \<longrightarrow>
      (\<forall>c \<in> set (chunk_document self doc md).
         chunk_type c = ''text'' \<longrightarrow>
         (\<exists>w. w \<noteq> [] \<and> (\<forall>ch \<in> set w. \<not> isspace ch) \<and>
              min_chunk_size self \<le> int (length w) \<and>
              (content c = w \<or> (\<exists>ov. content c = ''[...] '' @ ov @ [NL, NL] @ w))))) \<and>
   (chunk_size self \<le> chunk_overlap self \<longrightarrow>
      (\<forall>c \<in> set (chunk_document (self\<lparr>chunk_overlap := 0\<rparr>) doc md).
         chunk_type c = ''text'' \<longrightarrow> (\<forall>ch \<in> set (content c). \<not> isspace ch) \<longrightarrow>
         int (length (content c)) \<le> chunk_overlap self) \<longrightarrow>
      chunk_document self doc md = chunk_document (self\<lparr>chunk_overlap := 0\<rparr>) doc md)"
proof (intro conjI impI ballI)
  define cs where "cs = number_chunks (case md of None \<Rightarrow> Map.empty | Some m \<Rightarrow> m) 0
                          (filter (keeps self) (all_pieces self doc))"
  have doc_eq: "chunk_document self doc md = apply_overlap self cs"
    unfolding cs_def by (rule chunk_document_eq)
  have plain_eq: "chunk_document (self\<lparr>chunk_overlap := 0\<rparr>) doc md = cs"
    unfolding cs_def by (rule chunk_document_without_overlap)
  {
    fix c
    assume lt: "chunk_size self < min_chunk_size self"
      and cin: "c \<in> set (chunk_document self doc md)" and ty: "chunk_type c = ''text''"
    obtain j where j: "j < length cs" and c: "c = apply_overlap self cs ! j"
      using cin doc_eq by (auto simp: in_set_conv_nth apply_overlap_length)
    have tyj: "chunk_type (cs ! j) = ''text''"
      using apply_overlap_type_nth[OF j, of self] c ty by simp
    have "cs ! j \<in> set cs" using j by simp
    then obtain x where cx: "content (cs ! j) = strip x" and ok: "piece_ok self x"
        and m: "min_chunk_size self \<le> int (length (strip x))"
      using tyj kept_text_chunk unfolding cs_def by blast
    have "int (length (strip x)) \<le> int (length x)" using length_strip_le[of x] by simp
    then have "\<not> int (length x) \<le> chunk_size self" using m lt by simp
    then have w: "x \<noteq> []" "\<forall>ch \<in> set x. \<not> isspace ch"
      using ok by (simp_all add: piece_ok_def)
    then have sx: "strip x = x" by (rule strip_word)
    have "content c = x \<or> (\<exists>ov. content c = ''[...] '' @ ov @ [NL, NL] @ x)"
      using apply_overlap_shape[OF j, of self] c cx sx by simp
    then show "\<exists>w. w \<noteq> [] \<and> (\<forall>ch \<in> set w. \<not> isspace ch) \<and>
              min_chunk_size self \<le> int (length w) \<and>
              (content c = w \<or> (\<exists>ov. content c = ''[...] '' @ ov @ [NL, NL] @ w))"
      using w m sx by auto
  }
  {
    assume le: "chunk_size self \<le> chunk_overlap self"
      and words: "\<forall>c \<in> set (chunk_document (self\<lparr>chunk_overlap := 0\<rparr>) doc md).
         chunk_type c = ''text'' \<longrightarrow> (\<forall>ch \<in> set (content c). \<not> isspace ch) \<longrightarrow>
         int (length (content c)) \<le> chunk_overlap self"
    have "\<forall>c \<in> set cs. chunk_type c = ''text'' \<longrightarrow> int (length (content c)) \<le> chunk_overlap self"
    proof (intro ballI impI)
      fix c assume cin: "c \<in> set cs" and ty: "chunk_type c = ''text''"
      obtain x where cx: "content c = strip x" and ok: "piece_ok self x"
        using cin ty kept_text_chunk unfolding cs_def by blast
      show "int (length (content c)) \<le> chunk_overlap self"
      proof (cases "int (length x) \<le> chunk_size self")
        case True
        have "int (length (strip x)) \<le> int (length x)" using length_strip_le[of x] by simp
        then show ?thesis using True le cx by simp
      next
        case False
        then have w: "x \<noteq> []" "\<forall>ch \<in> set x. \<not> isspace ch"
          using ok by (simp_all add: piece_ok_def)
        then have "strip x = x" by (rule strip_word)
        then have "\<forall>ch \<in> set (content c). \<not> isspace ch" using cx w by simp
        then show ?thesis using words cin ty plain_eq by blast
      qed
    qed
    then have "apply_overlap self cs = cs" by (rule apply_overlap_short)
    then show "chunk_document self doc md = chunk_document (self\<lparr>chunk_overlap := 0\<rparr>) doc md"
      using doc_eq plain_eq by simp
  }
qed

lemma ex_min_above_size_eval:
  "map content (chunk_document ex_min_above_size ex_long_words_doc
       (None :: (string \<rightharpoonup> string) option)) =
     [''abcdefgh'', ''[...] fgh'' @ [NL, NL] @ ''abcdefghi''] \<and>
   map chunk_type (chunk_document ex_min_above_size ex_long_words_doc
       (None :: (string \<rightharpoonup> string) option)) = [''text'', ''text'']"
  by code_simp

lemma ex_word_doc_eval:
  "map content (chunk_document (ex_equal_overlap\<lparr>chunk_overlap := 0\<rparr>) ex_word_doc
       (None :: (string \<rightharpoonup> string) option)) =
     [''aaa bbb ccc'', ''ddddd'', ''eee fff ggg'']"
  by code_simp

theorem degenerate_config_behaviour_witness:
  "chunk_size ex_min_above_size < min_chunk_size ex_min_above_size \<and>
   last (chunk_document ex_min_above_size ex_long_words_doc (None :: (string \<rightharpoonup> string) option))
     \<in> set (chunk_document ex_min_above_size ex_long_words_doc None) \<and>
   chunk_type (last (chunk_document ex_min_above_size ex_long_words_doc
       (None :: (string \<rightharpoonup> string) option))) = ''text'' \<and>
   min_chunk_size ex_min_above_size \<le> int (length (content
     (last (chunk_document ex_min_above_size ex_long_words_doc
        (None :: (string \<rightharpoonup> string) option))))) \<and>
   chunk_size ex_equal_overlap \<le> chunk_overlap ex_equal_overlap \<and>
   map content (chunk_document ex_equal_overlap ex_word_doc
       (None :: (string \<rightharpoonup> string) option)) =
     [''aaa bbb ccc'', ''ddddd'', ''eee fff ggg'']"
proof -
  define r where "r = chunk_document ex_min_above_size ex_long_words_doc
                        (None :: (string \<rightharpoonup> string) option)"
  define r0 where "r0 = chunk_document (ex_equal_overlap\<lparr>chunk_overlap := 0\<rparr>) ex_word_doc
                          (None :: (string \<rightharpoonup> string) option)"
  have lt: "chunk_size ex_min_above_size < min_chunk_size ex_min_above_size"
    by (simp add: ex_min_above_size_def default_chunker_def)
  have ne: "r \<noteq> []" using ex_min_above_size_eval unfolding r_def by auto
  then have mem: "last r \<in> set r" by simp
  have "chunk_type (last r) = last (map chunk_type r)" using ne by (simp add: last_map)
  then have ty: "chunk_type (last r) = ''text''"
    using ex_min_above_size_eval unfolding r_def by simp
  from degenerate_config_behaviour [of ex_min_above_size ex_long_words_doc None] lt mem ty
  obtain w where "min_chunk_size ex_min_above_size \<le> int (length w)"
      and "content (last r) = w \<or> (\<exists>ov. content (last r) = ''[...] '' @ ov @ [NL, NL] @ w)"
    unfolding r_def by blast
  then have big: "min_chunk_size ex_min_above_size \<le> int (length (content (last r)))"
    by auto
  have le: "chunk_size ex_equal_overlap \<le> chunk_overlap ex_equal_overlap"
    by (simp add: ex_equal_overlap_def default_chunker_def)
  have e: "map content r0 = [''aaa bbb ccc'', ''ddddd'', ''eee fff ggg'']"
    using ex_word_doc_eval unfolding r0_def by simp
  have o: "chunk_overlap ex_equal_overlap = 12"
    by (simp add: ex_equal_overlap_def default_chunker_def)
  have "\<forall>x \<in> set (map content r0). int (length x) \<le> chunk_overlap ex_equal_overlap"
    unfolding e o by simp
  then have short: "\<forall>c \<in> set r0. int (length (content c)) \<le> chunk_overlap ex_equal_overlap"
    by simp
  from degenerate_config_behaviour [of ex_equal_overlap ex_word_doc None] le short
  have "chunk_document ex_equal_overlap ex_word_doc (None :: (string \<rightharpoonup> string) option) = r0"
    unfolding r0_def by blast
  then have "map content (chunk_document ex_equal_overlap ex_word_doc
                (None :: (string \<rightharpoonup> string) option)) =
             [''aaa bbb ccc'', ''ddddd'', ''eee fff ggg'']"
    using ex_word_doc_eval unfolding r0_def by simp
  then show ?thesis using lt mem ty big le unfolding r_def by simp
qed

end
